theory Spec2Isabelle
  imports Main
begin

section \<open>The remote transport, seen from the synchronisation engine\<close>

text \<open>
  A content block as the engine handles it: the identity the remote store generated (absent
  on a block that is still to be created), the discriminator \<open>type\<close>, the payload stored
  under the key named by the discriminator, the \<open>has_children\<close> flag of a listed block
  and the nested \<open>children\<close> of that payload (absent, or a possibly empty list).
\<close>

datatype block =
  Block (bid: "string option") (btype: string) (payload: string)
        (has_children: bool) (children: "block list option")

text \<open>
  A thrown value: an object with an optional numeric \<open>status\<close> and a message.
\<close>

datatype error = Error (status: "int option") (message: string)

text \<open>
  What a function of the engine yields: its value, a thrown error, or no answer within
  the fuel given to the one loop of the source that is driven by the remote's answers
  alone (the pagination loop of \<open>getAllBlockPages\<close>).
\<close>

datatype 'a result = Ok 'a | Throw error | OutOfFuel

datatype request =
    PagesRetrieve string
  | ChildrenList string "string option"
  | ChildrenAppend string "block list" "string option"
  | BlocksDelete "string option"
  | PagesCreate string string
  | PagesArchive string

text \<open>
  The world is the history of what the process did to the outside: the requests it sent,
  the times it slept, and the calls to the change tracker.
\<close>

datatype event =
    Call request
  | Slept int
  | SaveFileState string
  | SavePendingChanges

type_synonym world = "event list"

definition sleep :: "int \<Rightarrow> world \<Rightarrow> world" where
  "sleep ms w = w @ [Slept ms]"

text \<open>
  One invocation of a remote operation: the answer is whatever the remote gives after the
  history so far, and the request joins the history.
\<close>

definition answer :: "error + 'a \<Rightarrow> 'a result" where
  "answer a = (case a of Inl e \<Rightarrow> Throw e | Inr v \<Rightarrow> Ok v)"

definition invoke :: "(world \<Rightarrow> error + 'a) \<Rightarrow> request \<Rightarrow> world \<Rightarrow> 'a result \<times> world" where
  "invoke respond r w = (answer (respond w), w @ [Call r])"

text \<open>
  Sequencing as \<open>await\<close> does it: the rest runs on the value, and a thrown error (or
  the lack of an answer) ends the computation with the history as it stands.
\<close>

definition andThen ::
  "(world \<Rightarrow> 'a result \<times> world) \<Rightarrow> ('a \<Rightarrow> world \<Rightarrow> 'b result \<times> world)
     \<Rightarrow> world \<Rightarrow> 'b result \<times> world" where
  "andThen m f w =
     (case m w of
        (Ok v, w') \<Rightarrow> f v w'
      | (Throw e, w') \<Rightarrow> (Throw e, w')
      | (OutOfFuel, w') \<Rightarrow> (OutOfFuel, w'))"

definition returns :: "'a \<Rightarrow> world \<Rightarrow> 'a result \<times> world" where
  "returns v w = (Ok v, w)"

definition throw :: "error \<Rightarrow> world \<Rightarrow> 'a result \<times> world" where
  "throw e w = (Throw e, w)"

lemma andThen_cong [fundef_cong]:
  "m w = m' w' \<Longrightarrow> (\<And>v w''. m' w' = (Ok v, w'') \<Longrightarrow> f v w'' = f' v w'')
     \<Longrightarrow> andThen m f w = andThen m' f' w'"
  by (auto simp: andThen_def split: prod.splits result.splits)

text \<open>
  The remote store behind the client: every operation answers with a value or an error,
  and the answer may depend on everything that happened before.
\<close>

record rich_text_item =
  plain_text :: "string option"
  text_content :: "string option"

record page_property =
  prop_type :: string
  prop_title :: "rich_text_item list option"

record page_response =
  p_object :: string
  p_id :: string
  p_url :: string
  properties :: "page_property list option"

record listed =
  l_object :: string
  l_id :: string
  l_type :: string
  l_payload :: string
  l_has_children :: bool

record list_response =
  results :: "listed list"
  has_more :: bool
  next_cursor :: "string option"

record client =
  pages_retrieve :: "string \<Rightarrow> world \<Rightarrow> error + page_response"
  children_list :: "string \<Rightarrow> string option \<Rightarrow> world \<Rightarrow> error + list_response"
  children_append :: "string \<Rightarrow> block list \<Rightarrow> string option \<Rightarrow> world \<Rightarrow> error + string list"
  blocks_delete :: "string option \<Rightarrow> world \<Rightarrow> error + unit"
  pages_create :: "string \<Rightarrow> string \<Rightarrow> world \<Rightarrow> error + page_response"
  pages_update_archived :: "string \<Rightarrow> world \<Rightarrow> error + unit"

section \<open>Retry with exponential backoff\<close>

definition MAX_RETRY_ATTEMPTS :: int where
  "MAX_RETRY_ATTEMPTS = 3"

definition INITIAL_RETRY_DELAY :: int where
  "INITIAL_RETRY_DELAY = 1000"

definition isRateLimit :: "error \<Rightarrow> bool" where
  "isRateLimit e = (status e = Some 429 \<or> status e = Some 503)"

text \<open>
  The \<open>for\<close> loop of \<open>retryWithBackoff\<close>, entered with the value of \<open>attempt\<close> and of
  \<open>lastError\<close>.
\<close>

function retryLoop ::
  "(world \<Rightarrow> 'a result \<times> world) \<Rightarrow> int \<Rightarrow> int \<Rightarrow> int \<Rightarrow> error option \<Rightarrow> world
     \<Rightarrow> 'a result \<times> world" where
  "retryLoop fn maxAttempts initialDelay attempt lastError w =
     (if attempt \<le> maxAttempts then
        (case fn w of
           (Ok v, w') \<Rightarrow> (Ok v, w')
         | (OutOfFuel, w') \<Rightarrow> (OutOfFuel, w')
         | (Throw e, w') \<Rightarrow>
             if attempt = maxAttempts \<or> \<not> isRateLimit e then (Throw e, w')
             else retryLoop fn maxAttempts initialDelay (attempt + 1) (Some e)
                    (sleep (initialDelay * 2 ^ nat (attempt - 1)) w'))
      else
        (case lastError of
           Some e \<Rightarrow> (Throw e, w)
         | None \<Rightarrow> (Throw (Error None ''Unknown error occurred''), w)))"
  by pat_completeness auto
termination
  by (relation "measure (\<lambda>(fn, maxAttempts, initialDelay, attempt, lastError, w).
        nat (maxAttempts + 1 - attempt))") auto

declare retryLoop.simps [simp del]

definition retryWithBackoff ::
  "(world \<Rightarrow> 'a result \<times> world) \<Rightarrow> int \<Rightarrow> int \<Rightarrow> world \<Rightarrow> 'a result \<times> world" where
  "retryWithBackoff fn maxAttempts initialDelay w =
     retryLoop fn maxAttempts initialDelay 1 None w"

text \<open>
  The history a run of \<open>k\<close> failed attempts followed by a sleep each leaves behind, the
  first of them being attempt number \<open>a\<close>.
\<close>

fun failedAttempts :: "request \<Rightarrow> int \<Rightarrow> nat \<Rightarrow> nat \<Rightarrow> event list" where
  "failedAttempts r initialDelay a 0 = []"
| "failedAttempts r initialDelay a (Suc k) =
     Call r # Slept (initialDelay * 2 ^ (a - 1)) # failedAttempts r initialDelay (Suc a) k"

section \<open>The page index and the archival of orphans\<close>

record NotionPageLink =
  link_id :: string
  link :: string

text \<open>
  A \<open>Map\<close> keeps its entries in insertion order and a \<open>Set\<close> its members: both are
  lists here, without repetition of a key or of a member.
\<close>

type_synonym page_index = "(string \<times> NotionPageLink) list"

fun map_set :: "'k \<Rightarrow> 'v \<Rightarrow> ('k \<times> 'v) list \<Rightarrow> ('k \<times> 'v) list" where
  "map_set k v [] = [(k, v)]"
| "map_set k v ((k', v') # rest) =
     (if k' = k then (k, v) # rest else (k', v') # map_set k v rest)"

definition set_add :: "'a \<Rightarrow> 'a list \<Rightarrow> 'a list" where
  "set_add x xs = (if x \<in> set xs then xs else xs @ [x])"

definition commonPageKey :: "string \<Rightarrow> string \<Rightarrow> string" where
  "commonPageKey parentId title = parentId @ ''/'' @ title"

definition newNotionPageLink :: "page_response \<Rightarrow> NotionPageLink" where
  "newNotionPageLink response = \<lparr>link_id = p_id response, link = p_url response\<rparr>"

definition archivePage :: "client \<Rightarrow> string \<Rightarrow> world \<Rightarrow> unit result \<times> world" where
  "archivePage notion pageId =
     retryWithBackoff (invoke (pages_update_archived notion pageId) (PagesArchive pageId))
       MAX_RETRY_ATTEMPTS INITIAL_RETRY_DELAY"

text \<open>\<open>s.replace(/-/g, "")\<close>\<close>

definition stripDashes :: "string \<Rightarrow> string" where
  "stripDashes s = filter (\<lambda>c. c \<noteq> CHR ''-'') s"

text \<open>\<open>key.split("/")\<close> and \<open>parts.join("/")\<close>\<close>

fun split_slash :: "string \<Rightarrow> string list" where
  "split_slash [] = [[]]"
| "split_slash (c # cs) =
     (if c = CHR ''/'' then [] # split_slash cs
      else (c # hd (split_slash cs)) # tl (split_slash cs))"

fun join_slash :: "string list \<Rightarrow> string" where
  "join_slash [] = []"
| "join_slash [p] = p"
| "join_slash (p # q # ps) = p @ ''/'' @ join_slash (q # ps)"

text \<open>
  The ancestor paths of a key, from the root down: for \<open>./1/2/3/file\<close> they are
  \<open>.\<close>, \<open>./1\<close>, \<open>./1/2\<close> and \<open>./1/2/3\<close>.
\<close>

definition ancestorPaths :: "string \<Rightarrow> string list" where
  "ancestorPaths key =
     (let pathParts = split_slash key
      in map (\<lambda>i. join_slash (take i pathParts)) [1 ..< length pathParts])"

definition hasArchivedAncestor :: "string list \<Rightarrow> string \<Rightarrow> bool" where
  "hasArchivedAncestor archivedPages key =
     (length (split_slash key) > 1 \<and>
      list_ex (\<lambda>ancestorPath. ancestorPath \<in> set archivedPages) (ancestorPaths key))"

definition sortedEntries :: "page_index \<Rightarrow> page_index" where
  "sortedEntries linkMap = sort_key (\<lambda>entry. length (fst entry)) linkMap"

definition isRootPage :: "string \<Rightarrow> NotionPageLink \<Rightarrow> bool" where
  "isRootPage pageId pageLink = (stripDashes (link_id pageLink) = stripDashes pageId)"

text \<open>
  A candidate for archival: an entry that is neither the root's own nor a page touched in
  this run. The loop passes over every other entry.
\<close>

definition isCandidate :: "string \<Rightarrow> string list \<Rightarrow> NotionPageLink \<Rightarrow> bool" where
  "isCandidate pageId processedNotionPageIds pageLink =
     (\<not> isRootPage pageId pageLink \<and> link_id pageLink \<notin> set processedNotionPageIds)"

text \<open>
  The loop over \<open>sortedEntries\<close>, entered with the keys archived so far; it yields the
  keys archived in the run.
\<close>

fun archiveLoop ::
  "client \<Rightarrow> string \<Rightarrow> string list \<Rightarrow> page_index \<Rightarrow> string list \<Rightarrow> world
     \<Rightarrow> string list result \<times> world" where
  "archiveLoop notion pageId processedNotionPageIds [] archivedPages w =
     (Ok archivedPages, w)"
| "archiveLoop notion pageId processedNotionPageIds ((key, pageLink) # rest) archivedPages w =
     (if isRootPage pageId pageLink then
        archiveLoop notion pageId processedNotionPageIds rest archivedPages w
      else if link_id pageLink \<in> set processedNotionPageIds then
        archiveLoop notion pageId processedNotionPageIds rest archivedPages w
      else if hasArchivedAncestor archivedPages key then
        archiveLoop notion pageId processedNotionPageIds rest archivedPages w
      else
        (case archivePage notion (link_id pageLink) w of
           (Ok u, w') \<Rightarrow>
             archiveLoop notion pageId processedNotionPageIds rest (set_add key archivedPages) w'
         | (Throw e, w') \<Rightarrow> (Throw e, w')
         | (OutOfFuel, w') \<Rightarrow> (OutOfFuel, w')))"

definition archiveOrphans ::
  "client \<Rightarrow> string \<Rightarrow> string list \<Rightarrow> page_index \<Rightarrow> world \<Rightarrow> string list result \<times> world" where
  "archiveOrphans notion pageId processedNotionPageIds linkMap =
     archiveLoop notion pageId processedNotionPageIds (sortedEntries linkMap) []"

subsection \<open>Observations on the archival pass\<close>

text \<open>
  A path is an ancestor path of a key when the key goes on, after it, with a slash; the
  depth of a path is the number of its slashes.
\<close>

definition isAncestorPath :: "string \<Rightarrow> string \<Rightarrow> bool" where
  "isAncestorPath ancestorPath key \<longleftrightarrow>
     take (Suc (length ancestorPath)) key = ancestorPath @ ''/''"

definition pathDepth :: "string \<Rightarrow> nat" where
  "pathDepth key = length (filter (\<lambda>c. c = CHR ''/'') key)"

text \<open>
  The calls of \<open>archivePage\<close> for the pages of a list of entries, one after the other up
  to the first that fails, with the keys archived.
\<close>

fun archivePages ::
  "client \<Rightarrow> page_index \<Rightarrow> string list \<Rightarrow> world \<Rightarrow> string list result \<times> world" where
  "archivePages notion [] archivedPages w = (Ok archivedPages, w)"
| "archivePages notion ((key, pageLink) # rest) archivedPages w =
     (case archivePage notion (link_id pageLink) w of
        (Ok u, w') \<Rightarrow> archivePages notion rest (set_add key archivedPages) w'
      | (Throw e, w') \<Rightarrow> (Throw e, w')
      | (OutOfFuel, w') \<Rightarrow> (OutOfFuel, w'))"

text \<open>
  The topmost candidates of an index: the candidates for archival whose key has no
  ancestor path that is the key of a candidate.
\<close>

definition topmost ::
  "string \<Rightarrow> string list \<Rightarrow> page_index \<Rightarrow> string \<times> NotionPageLink \<Rightarrow> bool" where
  "topmost pageId processedNotionPageIds linkMap entry \<longleftrightarrow>
     isCandidate pageId processedNotionPageIds (snd entry) \<and>
     \<not> list_ex (\<lambda>(ancestorPath, ancestorLink).
            isCandidate pageId processedNotionPageIds ancestorLink \<and>
            isAncestorPath ancestorPath (fst entry)) linkMap"

section \<open>Appending blocks\<close>

definition NOTION_BLOCK_LIMIT :: nat where
  "NOTION_BLOCK_LIMIT = 100"

text \<open>
  \<open>findMaxDepth(block, depth)\<close>, on the children of the node it is given: the node
  \<open>{ children: blocks }\<close> the caller builds, or the payload \<open>child[child.type]\<close> of a
  child.
\<close>

lemma size_children [termination_simp]:
  "size_option (size_list size) (children b) < size b"
  by (cases b) simp

lemma size_children_member [termination_simp]:
  "child \<in> set cs \<Longrightarrow> size_option (size_list size) (children child) < Suc (size_list size cs)"
  using size_children [of child] size_list_estimation' [of child cs "size child" size]
  by simp

fun findMaxDepth :: "block list option \<Rightarrow> nat \<Rightarrow> nat" where
  "findMaxDepth None depth = depth"
| "findMaxDepth (Some cs) depth =
     fold (\<lambda>child maxDepth. max maxDepth (findMaxDepth (children child) (depth + 1))) cs depth"


text \<open>
  What the \<open>map\<close> over a chunk does to a block when \<open>limitChild\<close> holds: the
  children of a \<open>bulleted_list_item\<close> are taken off the block and kept under the
  block's index in the chunk.
\<close>

definition detach :: "bool \<Rightarrow> block \<Rightarrow> block" where
  "detach limitChild b =
     (if limitChild \<and> btype b = ''bulleted_list_item'' \<and> children b \<noteq> None
      then Block (bid b) (btype b) (payload b) (has_children b) None
      else b)"

fun detachedChildren :: "bool \<Rightarrow> nat \<Rightarrow> block list \<Rightarrow> (nat \<times> block list) list" where
  "detachedChildren limitChild index [] = []"
| "detachedChildren limitChild index (b # bs) =
     (case children b of
        Some cs \<Rightarrow>
          if limitChild \<and> btype b = ''bulleted_list_item''
          then (index, cs) # detachedChildren limitChild (index + 1) bs
          else detachedChildren limitChild (index + 1) bs
      | None \<Rightarrow> detachedChildren limitChild (index + 1) bs)"

text \<open>\<open>afterId ? afterId : undefined\<close>\<close>

definition truthy :: "string option \<Rightarrow> string option" where
  "truthy s = (case s of Some (c # cs) \<Rightarrow> Some (c # cs) | _ \<Rightarrow> None)"

definition childrenWeight :: "(nat \<times> block list) list \<Rightarrow> nat" where
  "childrenWeight xs = sum_list (map (\<lambda>(index, cs). Suc (size_list size cs)) xs)"

lemma childrenWeight_detached:
  "childrenWeight (detachedChildren limitChild index bs) \<le> size_list size bs"
proof (induction bs arbitrary: index)
  case Nil
  then show ?case by (simp add: childrenWeight_def)
next
  case (Cons b bs)
  have "\<And>cs. children b = Some cs \<Longrightarrow> Suc (size_list size cs) \<le> size b"
    by (cases b) simp
  then show ?case
    using Cons [of "index + 1"]
    by (auto simp: childrenWeight_def split: option.splits)
qed

lemma size_list_take: "size_list f (take n xs) \<le> size_list f xs"
  by (induction xs arbitrary: n) (auto simp: take_Cons split: nat.splits)

lemma size_list_drop_le: "size_list f (drop n xs) \<le> size_list f xs"
proof (induction xs arbitrary: n)
  case Nil
  then show ?case by simp
next
  case (Cons x xs)
  show ?case
  proof (cases n)
    case 0
    then show ?thesis by simp
  next
    case (Suc m)
    then show ?thesis using Cons [of m] by simp
  qed
qed

lemma size_list_drop: "xs \<noteq> [] \<Longrightarrow> 0 < n \<Longrightarrow> size_list f (drop n xs) < size_list f xs"
proof (cases xs)
  case Nil
  assume "xs \<noteq> []"
  then show ?thesis using Nil by simp
next
  case (Cons x ys)
  assume "0 < n"
  then obtain m where "n = Suc m" by (cases n) auto
  then show ?thesis using Cons size_list_drop_le [of f m ys] by simp
qed

function appendBlocksInChunks ::
    "client \<Rightarrow> int \<Rightarrow> string \<Rightarrow> block list \<Rightarrow> string option \<Rightarrow> world \<Rightarrow> unit result \<times> world"
  and appendChunks ::
    "client \<Rightarrow> int \<Rightarrow> string \<Rightarrow> bool \<Rightarrow> block list \<Rightarrow> string option \<Rightarrow> world
       \<Rightarrow> unit result \<times> world"
  and appendChildren ::
    "client \<Rightarrow> int \<Rightarrow> string list \<Rightarrow> (nat \<times> block list) list \<Rightarrow> world \<Rightarrow> unit result \<times> world"
where
  "appendBlocksInChunks notion maxRetryAttempts pageId blocks afterId w =
     appendChunks notion maxRetryAttempts pageId (findMaxDepth (Some blocks) 0 > 3) blocks afterId w"
| "appendChunks notion maxRetryAttempts pageId limitChild blocks afterId w =
     (if blocks = [] then (Ok (), w)
      else
        andThen
          (retryWithBackoff
             (invoke
                (children_append notion pageId
                   (map (detach limitChild) (take NOTION_BLOCK_LIMIT blocks)) (truthy afterId))
                (ChildrenAppend pageId
                   (map (detach limitChild) (take NOTION_BLOCK_LIMIT blocks)) (truthy afterId)))
             maxRetryAttempts INITIAL_RETRY_DELAY)
          (\<lambda>response.
             andThen
               (appendChildren notion maxRetryAttempts response
                  (detachedChildren limitChild 0 (take NOTION_BLOCK_LIMIT blocks)))
               (\<lambda>u. appendChunks notion maxRetryAttempts pageId limitChild
                      (drop NOTION_BLOCK_LIMIT blocks) afterId))
          w)"
| "appendChildren notion maxRetryAttempts response [] w = (Ok (), w)"
| "appendChildren notion maxRetryAttempts response ((index, cs) # rest) w =
     (if index < length response then
        andThen
          (appendBlocksInChunks notion maxRetryAttempts (response ! index) cs None)
          (\<lambda>u. appendChildren notion maxRetryAttempts response rest)
          w
      else
        (Throw (Error None ''TypeError: Cannot read properties of undefined (reading id)''), w))"
  by pat_completeness auto
termination
proof (relation "measure (\<lambda>x. case x of
      Inl (notion, m, pageId, blocks, afterId, w) \<Rightarrow> 3 * size_list size blocks + 2
    | Inr (Inl (notion, m, pageId, limitChild, blocks, afterId, w)) \<Rightarrow> 3 * size_list size blocks + 1
    | Inr (Inr (notion, m, response, cs, w)) \<Rightarrow> 3 * childrenWeight cs)", goal_cases)
  case 1
  then show ?case by simp
next
  case (2 notion maxRetryAttempts pageId blocks afterId w)
  then show ?case by simp
next
  case (3 notion maxRetryAttempts pageId limitChild blocks afterId w x xa)
  have "childrenWeight (detachedChildren limitChild 0 (take NOTION_BLOCK_LIMIT blocks))
      \<le> size_list size blocks"
    using childrenWeight_detached [of limitChild 0 "take NOTION_BLOCK_LIMIT blocks"]
      size_list_take [of size NOTION_BLOCK_LIMIT blocks]
    by simp
  then show ?case by simp
next
  case (4 notion maxRetryAttempts pageId limitChild blocks afterId w x xa xb xc)
  then show ?case
    using size_list_drop [of blocks NOTION_BLOCK_LIMIT size]
    by (simp add: NOTION_BLOCK_LIMIT_def)
next
  case (5 notion maxRetryAttempts response index cs rest w)
  then show ?case by (simp add: childrenWeight_def)
next
  case (6 notion maxRetryAttempts response index cs rest w x xa)
  then show ?case by (simp add: childrenWeight_def)
qed


section \<open>Resolving the pages of the local tree\<close>

record MarkdownFileData =
  fileName :: string
  getContent :: "(string \<times> string) list \<Rightarrow> block list"
  hasChanged :: "bool option"

datatype Folder =
  Folder (name: string) (files: "MarkdownFileData list") (subfolders: "Folder list")

text \<open>
  \<open>createOrUpdatePage\<close> reads and extends the page index \<open>linkMap\<close>, which it yields
  with the id of the page.
\<close>

definition createOrUpdatePage ::
  "client \<Rightarrow> int \<Rightarrow> page_index \<Rightarrow> string \<Rightarrow> string \<Rightarrow> string
     \<Rightarrow> (string \<Rightarrow> world \<Rightarrow> unit result \<times> world)
     \<Rightarrow> world \<Rightarrow> (string \<times> page_index) result \<times> world" where
  "createOrUpdatePage notion maxRetryAttempts linkMap folderName parentId parentName onUpdated =
     (let key = commonPageKey parentName folderName
      in case map_of linkMap key of
           Some pageLink \<Rightarrow>
             andThen (onUpdated (link_id pageLink)) (\<lambda>u. returns (link_id pageLink, linkMap))
         | None \<Rightarrow>
             andThen
               (retryWithBackoff
                  (invoke (pages_create notion parentId folderName) (PagesCreate parentId folderName))
                  maxRetryAttempts INITIAL_RETRY_DELAY)
               (\<lambda>response.
                  returns (p_id response, map_set key (newNotionPageLink response) linkMap)))"

text \<open>
  The state \<open>syncFolder\<close> works on: the page index, the work list \<open>pages\<close> and the set
  \<open>folderPageIds\<close>.
\<close>

type_synonym sync_state = "page_index \<times> (string \<times> MarkdownFileData) list \<times> string list"

definition doNothing :: "string \<Rightarrow> world \<Rightarrow> unit result \<times> world" where
  "doNothing pageId = returns ()"

fun syncFiles ::
  "client \<Rightarrow> int \<Rightarrow> MarkdownFileData list \<Rightarrow> string \<Rightarrow> string \<Rightarrow> sync_state \<Rightarrow> world
     \<Rightarrow> sync_state result \<times> world" where
  "syncFiles notion maxRetryAttempts [] folderPageId childParentName st w = (Ok st, w)"
| "syncFiles notion maxRetryAttempts (file # rest) folderPageId childParentName
       (linkMap, pages, folderPageIds) w =
     andThen
       (createOrUpdatePage notion maxRetryAttempts linkMap (fileName file) folderPageId
          childParentName doNothing)
       (\<lambda>(pageId, linkMap').
          syncFiles notion maxRetryAttempts rest folderPageId childParentName
            (linkMap', pages @ [(pageId, file)], folderPageIds))
       w"

fun syncFolder ::
    "client \<Rightarrow> int \<Rightarrow> string \<Rightarrow> Folder \<Rightarrow> string \<Rightarrow> string \<Rightarrow> bool \<Rightarrow> sync_state \<Rightarrow> world
       \<Rightarrow> sync_state result \<times> world"
  and syncSubfolders ::
    "client \<Rightarrow> int \<Rightarrow> string \<Rightarrow> Folder list \<Rightarrow> string \<Rightarrow> string \<Rightarrow> sync_state \<Rightarrow> world
       \<Rightarrow> sync_state result \<times> world"
where
  "syncFolder notion maxRetryAttempts dirName (Folder folderName folderFiles folderSubfolders)
       parentId parentName createFolder (linkMap, pages, folderPageIds) w =
     andThen
       (if createFolder
        then createOrUpdatePage notion maxRetryAttempts linkMap folderName parentId parentName
               doNothing
        else returns (parentId, linkMap))
       (\<lambda>(folderPageId, linkMap').
          andThen
            (syncFiles notion maxRetryAttempts folderFiles folderPageId
               (if dirName = folderName then parentName else parentName @ ''/'' @ folderName)
               (linkMap', pages, set_add folderPageId folderPageIds))
            (syncSubfolders notion maxRetryAttempts dirName folderSubfolders folderPageId
               (if dirName = folderName then parentName else parentName @ ''/'' @ folderName)))
       w"
| "syncSubfolders notion maxRetryAttempts dirName [] parentId parentName st w = (Ok st, w)"
| "syncSubfolders notion maxRetryAttempts dirName (subfolder # rest) parentId parentName st w =
     andThen
       (syncFolder notion maxRetryAttempts dirName subfolder parentId parentName True st)
       (syncSubfolders notion maxRetryAttempts dirName rest parentId parentName)
       w"

section \<open>Reading the blocks of a page\<close>

definition isBlockObjectResponse :: "listed \<Rightarrow> bool" where
  "isBlockObjectResponse child = (l_object child = ''block'')"

definition asBlock :: "listed \<Rightarrow> block" where
  "asBlock child =
     Block (Some (l_id child)) (l_type child) (l_payload child) (l_has_children child) None"

text \<open>
  \<open>processInParallel\<close> on the schedule of limit 1: the items one after the other in input
  order, each to its end, with no pacing sleep between them (none is due while nothing
  else is in flight). The first error ends the run.
\<close>

fun processInParallel ::
  "'a list \<Rightarrow> ('a \<Rightarrow> world \<Rightarrow> 'b result \<times> world) \<Rightarrow> world \<Rightarrow> 'b list result \<times> world" where
  "processInParallel [] processor w = (Ok [], w)"
| "processInParallel (item # items) processor w =
     andThen (processor item)
       (\<lambda>r. andThen (processInParallel items processor) (\<lambda>rs. returns (r # rs)))
       w"

lemma processInParallel_cong [fundef_cong]:
  "items = items' \<Longrightarrow> w = w' \<Longrightarrow>
   (\<And>item w''. item \<in> set items' \<Longrightarrow> processor item w'' = processor' item w'') \<Longrightarrow>
   processInParallel items processor w = processInParallel items' processor' w'"
proof (induction items' arbitrary: items w w')
  case Nil
  then show ?case by simp
next
  case (Cons a items')
  then show ?case
    by (auto simp: andThen_def split: prod.splits result.splits)
qed

text \<open>
  The \<open>do ... while (cursor)\<close> loop of \<open>getAllBlockPages\<close>. It goes on for as long as
  the remote announces more pages, so it is given fuel: one unit per turn.
\<close>

fun listPages ::
  "client \<Rightarrow> int \<Rightarrow> string \<Rightarrow> nat \<Rightarrow> string option \<Rightarrow> block list \<Rightarrow> string option list \<Rightarrow> world
     \<Rightarrow> (block list \<times> string option list) result \<times> world" where
  "listPages notion maxRetryAttempts pageId 0 cursor allBlocks pageRequests w = (OutOfFuel, w)"
| "listPages notion maxRetryAttempts pageId (Suc fuel) cursor allBlocks pageRequests w =
     andThen
       (retryWithBackoff
          (invoke (children_list notion pageId cursor) (ChildrenList pageId cursor))
          maxRetryAttempts INITIAL_RETRY_DELAY)
       (\<lambda>response.
          if truthy (if has_more response then next_cursor response else None) \<noteq> None
          then listPages notion maxRetryAttempts pageId fuel
                 (if has_more response then next_cursor response else None)
                 (allBlocks @ map asBlock (filter isBlockObjectResponse (results response)))
                 (pageRequests @ [if has_more response then next_cursor response else None])
          else returns
                 (allBlocks @ map asBlock (filter isBlockObjectResponse (results response)),
                  pageRequests))
       w"

definition getAllBlockPages ::
  "client \<Rightarrow> int \<Rightarrow> nat \<Rightarrow> string \<Rightarrow> world \<Rightarrow> block list result \<times> world" where
  "getAllBlockPages notion maxRetryAttempts fuel pageId =
     andThen (listPages notion maxRetryAttempts pageId fuel None [] [None])
       (\<lambda>(allBlocks, pageRequests).
          if length pageRequests \<le> 1 then returns allBlocks
          else
            andThen
              (processInParallel (tl pageRequests)
                 (\<lambda>pageCursor.
                    andThen
                      (retryWithBackoff
                         (invoke (children_list notion pageId pageCursor)
                            (ChildrenList pageId pageCursor))
                         maxRetryAttempts INITIAL_RETRY_DELAY)
                      (\<lambda>response.
                         returns (map asBlock (filter isBlockObjectResponse (results response))))))
              (\<lambda>remainingBlocks. returns (allBlocks @ concat remainingBlocks)))"

text \<open>The id of a block as it stands in a request.\<close>

definition blockIdString :: "block \<Rightarrow> string" where
  "blockIdString b = (case bid b of Some i \<Rightarrow> i | None \<Rightarrow> ''undefined'')"

definition setChildren :: "block \<Rightarrow> block list \<Rightarrow> block" where
  "setChildren b cs = Block (bid b) (btype b) (payload b) (has_children b) (Some cs)"

function getExistingBlocks ::
  "client \<Rightarrow> int \<Rightarrow> nat \<Rightarrow> string \<Rightarrow> nat \<Rightarrow> nat \<Rightarrow> world \<Rightarrow> block list result \<times> world" where
  "getExistingBlocks notion maxRetryAttempts fuel pageId maxDepth currentDepth w =
     andThen (getAllBlockPages notion maxRetryAttempts fuel pageId)
       (\<lambda>existingBlocks.
          if currentDepth < maxDepth then
            processInParallel existingBlocks
              (\<lambda>block.
                 if has_children block then
                   andThen
                     (getExistingBlocks notion maxRetryAttempts fuel (blockIdString block)
                        maxDepth (currentDepth + 1))
                     (\<lambda>cs. returns (setChildren block cs))
                 else returns block)
          else returns existingBlocks)
       w"
  by pat_completeness auto
termination
  by (relation "measure (\<lambda>(notion, m, fuel, pageId, maxDepth, currentDepth, w).
        maxDepth - currentDepth)") auto

declare getExistingBlocks.simps [simp del]

section \<open>Applying the edits of the merge engine\<close>

text \<open>
  What the merge engine asks of its caller, in the order it asks: blocks to append after
  an anchor block (or after none), and a block to delete.
\<close>

datatype instr = AppendBlocks "block list" "block option" | DeleteBlock block

type_synonym merge_engine = "block list \<Rightarrow> block list \<Rightarrow> instr list"

text \<open>The append callback \<open>updateBlocks\<close> hands to the merge engine.\<close>

definition appendCallback ::
  "client \<Rightarrow> int \<Rightarrow> string \<Rightarrow> block list \<Rightarrow> block list \<Rightarrow> block option \<Rightarrow> string option list
     \<Rightarrow> world \<Rightarrow> string option list result \<times> world" where
  "appendCallback notion maxRetryAttempts pageId existingBlocks blocks after blockIdSetToDelete =
     (case (after, existingBlocks) of
        (None, firstBlock # others) \<Rightarrow>
          if truthy (bid firstBlock) \<noteq> None then
            andThen
              (appendBlocksInChunks notion maxRetryAttempts pageId
                 (if bid firstBlock \<in> set blockIdSetToDelete then blocks
                  else blocks @
                    [Block None (btype firstBlock) (payload firstBlock) (has_children firstBlock)
                       (children firstBlock)])
                 (bid firstBlock))
              (\<lambda>u. returns (set_add (bid firstBlock) blockIdSetToDelete))
          else
            andThen (appendBlocksInChunks notion maxRetryAttempts pageId blocks None)
              (\<lambda>u. returns blockIdSetToDelete)
      | (None, []) \<Rightarrow>
          andThen (appendBlocksInChunks notion maxRetryAttempts pageId blocks None)
            (\<lambda>u. returns blockIdSetToDelete)
      | (Some anchor, _) \<Rightarrow>
          andThen (appendBlocksInChunks notion maxRetryAttempts pageId blocks (bid anchor))
            (\<lambda>u. returns blockIdSetToDelete))"

fun applyEdits ::
  "client \<Rightarrow> int \<Rightarrow> string \<Rightarrow> block list \<Rightarrow> instr list \<Rightarrow> string option list \<Rightarrow> world
     \<Rightarrow> string option list result \<times> world" where
  "applyEdits notion maxRetryAttempts pageId existingBlocks [] blockIdSetToDelete w =
     (Ok blockIdSetToDelete, w)"
| "applyEdits notion maxRetryAttempts pageId existingBlocks (AppendBlocks blocks after # rest)
       blockIdSetToDelete w =
     andThen
       (appendCallback notion maxRetryAttempts pageId existingBlocks blocks after
          blockIdSetToDelete)
       (applyEdits notion maxRetryAttempts pageId existingBlocks rest)
       w"
| "applyEdits notion maxRetryAttempts pageId existingBlocks (DeleteBlock b # rest)
       blockIdSetToDelete w =
     applyEdits notion maxRetryAttempts pageId existingBlocks rest
       (set_add (bid b) blockIdSetToDelete) w"

fun deleteBlocks ::
  "client \<Rightarrow> int \<Rightarrow> string option list \<Rightarrow> world \<Rightarrow> unit result \<times> world" where
  "deleteBlocks notion maxRetryAttempts [] w = (Ok (), w)"
| "deleteBlocks notion maxRetryAttempts (blockId # rest) w =
     andThen
       (retryWithBackoff (invoke (blocks_delete notion blockId) (BlocksDelete blockId))
          maxRetryAttempts INITIAL_RETRY_DELAY)
       (\<lambda>u. deleteBlocks notion maxRetryAttempts rest)
       w"

definition updateBlocks ::
  "client \<Rightarrow> int \<Rightarrow> merge_engine \<Rightarrow> nat \<Rightarrow> string \<Rightarrow> block list \<Rightarrow> world
     \<Rightarrow> unit result \<times> world" where
  "updateBlocks notion maxRetryAttempts mergeBlocks fuel pageId newBlocks =
     andThen (getExistingBlocks notion maxRetryAttempts fuel pageId 10 0)
       (\<lambda>existingBlocks.
          andThen
            (applyEdits notion maxRetryAttempts pageId existingBlocks
               (mergeBlocks existingBlocks newBlocks) [])
            (deleteBlocks notion maxRetryAttempts))"

section \<open>The run\<close>

text \<open>
  \<open>path.join(fileName === "." ? "" : fileName, ".md")\<close>, for a file name that is a
  single path segment.
\<close>

definition stateFilePath :: "string \<Rightarrow> string" where
  "stateFilePath f = (if f = ''.'' \<or> f = [] then ''.md'' else f @ ''/.md'')"

fun syncPages ::
  "client \<Rightarrow> int \<Rightarrow> merge_engine \<Rightarrow> nat \<Rightarrow> bool \<Rightarrow> (string \<times> string) list
     \<Rightarrow> (string \<times> MarkdownFileData) list \<Rightarrow> world \<Rightarrow> unit result \<times> world" where
  "syncPages notion maxRetryAttempts mergeBlocks fuel syncStateManager linkUrlMap [] w =
     (Ok (), w)"
| "syncPages notion maxRetryAttempts mergeBlocks fuel syncStateManager linkUrlMap
       ((pageId, file) # rest) w =
     (if hasChanged file = Some False then
        syncPages notion maxRetryAttempts mergeBlocks fuel syncStateManager linkUrlMap rest w
      else
        andThen
          (updateBlocks notion maxRetryAttempts mergeBlocks fuel pageId
             (getContent file linkUrlMap))
          (\<lambda>u w'.
             syncPages notion maxRetryAttempts mergeBlocks fuel syncStateManager linkUrlMap rest
               (if syncStateManager then w' @ [SaveFileState (stateFilePath (fileName file))]
                else w'))
          w)"

definition syncToNotion ::
  "client \<Rightarrow> string \<Rightarrow> Folder \<Rightarrow> page_index \<Rightarrow> bool \<Rightarrow> bool \<Rightarrow> int \<Rightarrow> merge_engine \<Rightarrow> nat
     \<Rightarrow> world \<Rightarrow> unit result \<times> world" where
  "syncToNotion notion pageId dir linkMap deleteNonExistentFiles syncStateManager
       maxRetryAttempts mergeBlocks fuel =
     andThen
       (syncFolder notion maxRetryAttempts (name dir) dir pageId ''.'' False (linkMap, [], []))
       (\<lambda>(linkMap', pages, folderPageIds).
          andThen
            (syncPages notion maxRetryAttempts mergeBlocks fuel syncStateManager
               (map (\<lambda>(key, pageLink). (key, link pageLink)) linkMap') pages)
            (\<lambda>u w.
               (if deleteNonExistentFiles then
                  andThen
                    (archiveOrphans notion pageId
                       (fold set_add (map fst pages @ folderPageIds) []) linkMap')
                    (\<lambda>archivedPages. returns ())
                else returns ())
                 (if syncStateManager then w @ [SavePendingChanges] else w)))"

section \<open>The block merge engine\<close>

text \<open>
  Modelled from the spec: the Block Merge Engine, \<open>mergeBlocks\<close> of \<open>./merge-blocks\<close>,
  which is imported by \<open>sync-to-notion.ts\<close> and is not among the source files. The spec
  (4.3) has it walk the existing and the desired blocks in parallel and compare them
  pairwise by content (type and payload, ignoring the generated identity and the nested
  children); blocks that match are left untouched except that their children are merged
  in turn; where the lists diverge, it resynchronises on the shorter of the two runs that
  lead to a match, appending the desired blocks of the run after the last matched block
  (or at the head) or deleting the existing blocks of the run; what is left of the
  desired list is appended after the last matched block, what is left of the existing
  list is deleted.
\<close>

definition contentEqual :: "block \<Rightarrow> block \<Rightarrow> bool" where
  "contentEqual a b = (btype a = btype b \<and> payload a = payload b)"

definition childrenOf :: "block \<Rightarrow> block list" where
  "childrenOf b = (case children b of None \<Rightarrow> [] | Some cs \<Rightarrow> cs)"

lemma size_childrenOf [termination_simp]: "size_list size (childrenOf b) < size b"
  by (cases b) (auto simp: childrenOf_def split: option.splits)

lemma size_list_dropWhile: "size_list f (dropWhile P xs) \<le> size_list f xs"
  by (induction xs) auto

function (sequential) mergeFrom :: "block option \<Rightarrow> block list \<Rightarrow> block list \<Rightarrow> instr list" where
  "mergeFrom prev [] [] = []"
| "mergeFrom prev [] (d # ds) = [AppendBlocks (d # ds) prev]"
| "mergeFrom prev (e # es) [] = map DeleteBlock (e # es)"
| "mergeFrom prev (e # es) (d # ds) =
     (if contentEqual e d then
        mergeFrom None (childrenOf e) (childrenOf d) @ mergeFrom (Some e) es ds
      else if dropWhile (\<lambda>x. \<not> contentEqual e x) ds \<noteq> [] \<and>
              (dropWhile (\<lambda>x. \<not> contentEqual x d) es = [] \<or>
               length (takeWhile (\<lambda>x. \<not> contentEqual e x) ds)
                 < length (takeWhile (\<lambda>x. \<not> contentEqual x d) es)) then
        AppendBlocks (d # takeWhile (\<lambda>x. \<not> contentEqual e x) ds) prev
          # mergeFrom prev (e # es) (dropWhile (\<lambda>x. \<not> contentEqual e x) ds)
      else if dropWhile (\<lambda>x. \<not> contentEqual x d) es \<noteq> [] then
        map DeleteBlock (e # takeWhile (\<lambda>x. \<not> contentEqual x d) es)
          @ mergeFrom prev (dropWhile (\<lambda>x. \<not> contentEqual x d) es) (d # ds)
      else
        DeleteBlock e # mergeFrom prev es (d # ds))"
  by pat_completeness auto
termination
proof (relation "measure (\<lambda>(prev, es, ds). size_list size es + size_list size ds)", goal_cases)
  case 1
  then show ?case by simp
next
  case (2 prev e es d ds)
  then show ?case
    using size_childrenOf [of e] size_childrenOf [of d] by simp
next
  case (3 prev e es d ds)
  then show ?case by simp
next
  case (4 prev e es d ds)
  then show ?case
    using size_list_dropWhile [of size "\<lambda>x. \<not> contentEqual e x" ds] by simp
next
  case (5 prev e es d ds)
  then show ?case
    using size_list_dropWhile [of size "\<lambda>x. \<not> contentEqual x d" es] by simp
next
  case (6 prev e es d ds)
  then show ?case by simp
qed

definition mergeBlocks :: merge_engine where
  "mergeBlocks existingBlocks newBlocks = mergeFrom None existingBlocks newBlocks"

text \<open>
  Equal content at every level: the same type and payload, and children that are
  pairwise so.
\<close>

lemma size_childrenOf_member [termination_simp]: "c \<in> set (childrenOf b) \<Longrightarrow> size c < size b"
  using size_childrenOf [of b] size_list_estimation' [of c "childrenOf b" "size c" size]
  by simp

fun deepEqual :: "block \<Rightarrow> block \<Rightarrow> bool" where
  "deepEqual a b = (contentEqual a b \<and> list_all2 deepEqual (childrenOf a) (childrenOf b))"


text \<open>Every file of a local tree.\<close>

fun allFiles :: "Folder \<Rightarrow> MarkdownFileData list" where
  "allFiles (Folder folderName folderFiles folderSubfolders) =
     folderFiles @ concat (map allFiles folderSubfolders)"

section \<open>Collecting the pages of the remote\<close>

definition getPageTitle :: "page_response \<Rightarrow> error + string" where
  "getPageTitle pageResponse =
     (case find (\<lambda>prop. prop_type prop = ''title'')
             (case properties pageResponse of None \<Rightarrow> [] | Some props \<Rightarrow> props) of
        Some prop \<Rightarrow>
          (case prop_title prop of
             Some (first # others) \<Rightarrow>
               (case (if truthy (plain_text first) \<noteq> None then plain_text first
                      else text_content first) of
                  Some (c # cs) \<Rightarrow> Inr (c # cs)
                | _ \<Rightarrow> Inl (Error None ''No title found. Please set a title for the page and try again.''))
           | _ \<Rightarrow> Inl (Error None ''No title found. Please set a title for the page and try again.''))
      | None \<Rightarrow> Inl (Error None ''No title found. Please set a title for the page and try again.''))"

definition childPageIds :: "list_response \<Rightarrow> string list" where
  "childPageIds childrenResponse =
     map l_id
       (filter (\<lambda>child. isBlockObjectResponse child \<and> l_type child = ''child_page'')
          (results childrenResponse))"

text \<open>
  A call of \<open>processPageParallel\<close> that is in flight, that is, a member of the set
  \<open>pendingTasks\<close>. It waits for the page and its children (\<open>Fetching\<close>, with the page id,
  the parent title and the depth); or it stands in the loop over the child pages, before
  the test \<open>pendingTasks.size >= parallelLimit\<close> (\<open>Spawning\<close>, with the new parent title,
  the depth and the child ids still to start); or it has passed that test and sleeps for
  \<open>requestDelay\<close> before it starts the first of these child ids (\<open>Pacing\<close>).
\<close>

datatype task =
    Fetching string string nat
  | Spawning string nat "string list"
  | Pacing string nat "string list"

text \<open>
  The state the calls share: the index \<open>linkMap\<close>, the set \<open>processedIds\<close>, the calls in
  flight, and what happened: the pages announced by the log line \<open>Collecting pages...\<close>
  (id, parent title, depth), which are the pages fetched; the \<open>linkMap.set\<close> calls (key,
  id of the page processed); and the errors thrown.
\<close>

record crawl =
  crawlIndex :: page_index
  processedIds :: "string list"
  pendingTasks :: "task list"
  collecting :: "(string \<times> string \<times> nat) list"
  registrations :: "(string \<times> string) list"
  rejections :: "error list"

text \<open>
  What the two retried calls for a page (\<open>pages.retrieve\<close> and \<open>blocks.children.list\<close>)
  give together, which may depend on all that happened so far.
\<close>

type_synonym remote_pages = "crawl \<Rightarrow> string \<Rightarrow> error + (page_response \<times> list_response)"

text \<open>\<open>depth > maxDepth\<close>, where no \<open>maxDepth\<close> stands for \<open>Infinity\<close>.\<close>

definition beyond :: "nat option \<Rightarrow> nat \<Rightarrow> bool" where
  "beyond maxDepth depth = (case maxDepth of None \<Rightarrow> False | Some m \<Rightarrow> m < depth)"

text \<open>
  The start of \<open>processPageParallel\<close>, up to its first \<open>await\<close>: it runs within the
  caller's step. A call that returns at once is in \<open>pendingTasks\<close> only until the caller
  next yields, and is not entered here.
\<close>

definition processPageParallel :: "nat option \<Rightarrow> string \<Rightarrow> string \<Rightarrow> nat \<Rightarrow> crawl \<Rightarrow> crawl" where
  "processPageParallel maxDepth pageId parentTitle depth c =
     (if pageId \<in> set (processedIds c) \<or> beyond maxDepth depth then c
      else c\<lparr>processedIds := set_add pageId (processedIds c),
             collecting := collecting c @ [(pageId, parentTitle, depth)],
             pendingTasks := pendingTasks c @ [Fetching pageId parentTitle depth]\<rparr>)"

text \<open>The call at position \<open>i\<close> goes on as \<open>next\<close>, or is over.\<close>

definition settle :: "nat \<Rightarrow> task option \<Rightarrow> task list \<Rightarrow> task list" where
  "settle i next ts =
     (case next of None \<Rightarrow> take i ts @ drop (Suc i) ts | Some t \<Rightarrow> ts[i := t])"

definition spawning :: "string \<Rightarrow> nat \<Rightarrow> string list \<Rightarrow> task option" where
  "spawning newParentTitle depth ids =
     (if ids = [] then None else Some (Spawning newParentTitle depth ids))"

text \<open>
  One turn of the loop over the child pages, once a slot is free and the pacing sleep is
  over: the child call starts, and the caller stands before the next child or is over.
\<close>

definition dispatch :: "nat option \<Rightarrow> nat \<Rightarrow> string \<Rightarrow> nat \<Rightarrow> string \<Rightarrow> string list \<Rightarrow> crawl \<Rightarrow> crawl" where
  "dispatch maxDepth i newParentTitle depth childId rest c =
     processPageParallel maxDepth childId newParentTitle (depth + 1)
       (c\<lparr>pendingTasks := settle i (spawning newParentTitle depth rest) (pendingTasks c)\<rparr>)"

text \<open>
  \<open>while (pendingTasks.size >= parallelLimit) await Promise.race(pendingTasks)\<close>: a call
  in the loop with a child to start takes no step while the calls in flight, itself
  among them, fill the cap.
\<close>

fun waits :: "int \<Rightarrow> crawl \<Rightarrow> task \<Rightarrow> bool" where
  "waits parallelLimit c (Spawning newParentTitle depth (childId # rest)) =
     (parallelLimit \<le> int (length (pendingTasks c)))"
| "waits parallelLimit c t = False"

text \<open>
  One step of the call at position \<open>i\<close>, from one point where it yields to the next: from
  the answers of the remote to the loop over the child pages, or one turn of that loop.
  Between two turns of the loop other calls may take steps here, also where the source
  goes on without yielding: the steps allowed include every order in which the source
  can run.
\<close>

fun resume :: "int \<Rightarrow> remote_pages \<Rightarrow> nat option \<Rightarrow> string \<Rightarrow> nat \<Rightarrow> task \<Rightarrow> crawl \<Rightarrow> crawl" where
  "resume requestDelay remote maxDepth rootPageId i (Fetching pageId parentTitle depth) c =
     (case remote c pageId of
        Inl e \<Rightarrow>
          c\<lparr>pendingTasks := settle i None (pendingTasks c), rejections := rejections c @ [e]\<rparr>
      | Inr (pageResponse, childrenResponse) \<Rightarrow>
          if p_object pageResponse \<noteq> ''page'' then
            c\<lparr>pendingTasks := settle i None (pendingTasks c)\<rparr>
          else
            (case getPageTitle pageResponse of
               Inl e \<Rightarrow>
                 c\<lparr>pendingTasks := settle i None (pendingTasks c),
                   rejections := rejections c @ [e]\<rparr>
             | Inr pageTitle \<Rightarrow>
                 c\<lparr>crawlIndex :=
                     map_set (commonPageKey parentTitle pageTitle)
                       (newNotionPageLink pageResponse) (crawlIndex c),
                   registrations :=
                     registrations c @ [(commonPageKey parentTitle pageTitle, pageId)],
                   pendingTasks :=
                     settle i
                       (spawning
                          (if pageId = rootPageId then ''.'' else parentTitle @ ''/'' @ pageTitle)
                          depth (childPageIds childrenResponse))
                       (pendingTasks c)\<rparr>))"
| "resume requestDelay remote maxDepth rootPageId i (Spawning newParentTitle depth []) c =
     c\<lparr>pendingTasks := settle i None (pendingTasks c)\<rparr>"
| "resume requestDelay remote maxDepth rootPageId i (Spawning newParentTitle depth (childId # rest)) c =
     (if 0 < requestDelay then
        c\<lparr>pendingTasks := settle i (Some (Pacing newParentTitle depth (childId # rest))) (pendingTasks c)\<rparr>
      else dispatch maxDepth i newParentTitle depth childId rest c)"
| "resume requestDelay remote maxDepth rootPageId i (Pacing newParentTitle depth []) c =
     c\<lparr>pendingTasks := settle i None (pendingTasks c)\<rparr>"
| "resume requestDelay remote maxDepth rootPageId i (Pacing newParentTitle depth (childId # rest)) c =
     dispatch maxDepth i newParentTitle depth childId rest c"

definition advance ::
  "int \<Rightarrow> int \<Rightarrow> remote_pages \<Rightarrow> nat option \<Rightarrow> string \<Rightarrow> nat \<Rightarrow> crawl \<Rightarrow> crawl option" where
  "advance parallelLimit requestDelay remote maxDepth rootPageId i c =
     (if i < length (pendingTasks c) \<and> \<not> waits parallelLimit c (pendingTasks c ! i)
      then Some (resume requestDelay remote maxDepth rootPageId i (pendingTasks c ! i) c)
      else None)"

definition startCrawl :: "nat option \<Rightarrow> string \<Rightarrow> crawl" where
  "startCrawl maxDepth rootPageId =
     processPageParallel maxDepth rootPageId ''.'' 0
       \<lparr>crawlIndex = [], processedIds = [], pendingTasks = [], collecting = [],
        registrations = [], rejections = []\<rparr>"

text \<open>
  The crawl after the steps of a schedule: the positions, one after the other, of the
  call that goes on (a position where no call stands, or where the call waits for a
  slot, is passed over).
\<close>

fun crawlSteps ::
  "int \<Rightarrow> int \<Rightarrow> remote_pages \<Rightarrow> nat option \<Rightarrow> string \<Rightarrow> nat list \<Rightarrow> crawl \<Rightarrow> crawl" where
  "crawlSteps parallelLimit requestDelay remote maxDepth rootPageId [] c = c"
| "crawlSteps parallelLimit requestDelay remote maxDepth rootPageId (i # schedule) c =
     crawlSteps parallelLimit requestDelay remote maxDepth rootPageId schedule
       (case advance parallelLimit requestDelay remote maxDepth rootPageId i c of
          Some c' \<Rightarrow> c' | None \<Rightarrow> c)"

text \<open>
  The index \<open>collectCurrentFiles\<close> hands out, as it stands after the steps of a schedule:
  the function returns it once the call for the root is over, and the calls still in
  flight go on writing to it.
\<close>

definition collectCurrentFiles ::
  "int \<Rightarrow> int \<Rightarrow> remote_pages \<Rightarrow> string \<Rightarrow> nat option \<Rightarrow> nat list \<Rightarrow> page_index" where
  "collectCurrentFiles parallelLimit requestDelay remote rootPageId maxDepth schedule =
     crawlIndex
       (crawlSteps parallelLimit requestDelay remote maxDepth rootPageId schedule
          (startCrawl maxDepth rootPageId))"

subsection \<open>Observations on a crawl\<close>

text \<open>
  The pages at a given depth below a root, for a relation from a page to its child
  pages, and the pages at depth at most \<open>m\<close>.
\<close>

fun level :: "(string \<Rightarrow> string list) \<Rightarrow> string \<Rightarrow> nat \<Rightarrow> string list" where
  "level childPages root 0 = [root]"
| "level childPages root (Suc depth) = concat (map childPages (level childPages root depth))"

definition withinLevels :: "(string \<Rightarrow> string list) \<Rightarrow> string \<Rightarrow> nat \<Rightarrow> string list" where
  "withinLevels childPages root m = concat (map (level childPages root) [0..<Suc m])"

text \<open>The page ids of the calls that wait for the remote, and the size of the work in flight.\<close>

fun fetchingIds :: "task list \<Rightarrow> string list" where
  "fetchingIds [] = []"
| "fetchingIds (Fetching pageId parentTitle depth # ts) = pageId # fetchingIds ts"
| "fetchingIds (Spawning newParentTitle depth ids # ts) = fetchingIds ts"
| "fetchingIds (Pacing newParentTitle depth ids # ts) = fetchingIds ts"

fun taskWeight :: "task \<Rightarrow> nat" where
  "taskWeight (Fetching pageId parentTitle depth) = 1"
| "taskWeight (Spawning newParentTitle depth ids) = 2 * length ids + 2"
| "taskWeight (Pacing newParentTitle depth ids) = 2 * length ids + 1"

fun startable :: "task \<Rightarrow> string list" where
  "startable (Fetching pageId parentTitle depth) = []"
| "startable (Spawning newParentTitle depth ids) = ids"
| "startable (Pacing newParentTitle depth ids) = ids"

text \<open>
  Each page at most once: no page id is announced twice or registered twice, the ids
  announced are the processed ones, the calls that wait for the remote are for distinct
  processed pages not yet registered, and every key of the index was registered.
\<close>

definition onceEach :: "crawl \<Rightarrow> bool" where
  "onceEach c \<longleftrightarrow>
     distinct (map fst (collecting c)) \<and>
     fst ` set (collecting c) = set (processedIds c) \<and>
     distinct (map snd (registrations c)) \<and>
     distinct (fetchingIds (pendingTasks c)) \<and>
     set (fetchingIds (pendingTasks c)) \<subseteq> set (processedIds c) \<and>
     set (fetchingIds (pendingTasks c)) \<inter> snd ` set (registrations c) = {} \<and>
     snd ` set (registrations c) \<subseteq> set (processedIds c) \<and>
     fst ` set (crawlIndex c) \<subseteq> fst ` set (registrations c)"

text \<open>
  Within the depth \<open>m\<close>: every page announced stands at its depth below the root, which
  is at most \<open>m\<close>; so does the page of every call in flight, whose child ids still to
  start are one level further down; and every page registered is at depth at most \<open>m\<close>.
\<close>

fun taskWithin :: "(string \<Rightarrow> string list) \<Rightarrow> string \<Rightarrow> nat \<Rightarrow> task \<Rightarrow> bool" where
  "taskWithin childPages root m (Fetching pageId parentTitle depth) =
     (depth \<le> m \<and> pageId \<in> set (level childPages root depth))"
| "taskWithin childPages root m (Spawning newParentTitle depth ids) =
     (depth \<le> m \<and> set ids \<subseteq> set (level childPages root (Suc depth)))"
| "taskWithin childPages root m (Pacing newParentTitle depth ids) =
     (depth \<le> m \<and> set ids \<subseteq> set (level childPages root (Suc depth)))"

definition withinDepth :: "(string \<Rightarrow> string list) \<Rightarrow> string \<Rightarrow> nat \<Rightarrow> crawl \<Rightarrow> bool" where
  "withinDepth childPages root m c \<longleftrightarrow>
     list_all (\<lambda>(pageId, parentTitle, depth).
         depth \<le> m \<and> pageId \<in> set (level childPages root depth)) (collecting c) \<and>
     list_all (taskWithin childPages root m) (pendingTasks c) \<and>
     list_all (\<lambda>(key, pageId). pageId \<in> set (withinLevels childPages root m))
       (registrations c)"

text \<open>
  The work left, for a list \<open>pages\<close> of all the page ids of the remote: the pages not
  yet processed, the calls that wait for the remote, and the turns left in the loops.
\<close>

definition crawlWork :: "string list \<Rightarrow> crawl \<Rightarrow> nat \<times> nat \<times> nat" where
  "crawlWork pages c =
     (card (set pages - set (processedIds c)),
      length (fetchingIds (pendingTasks c)),
      sum_list (map taskWeight (pendingTasks c)))"

definition crawlOrder :: "string list \<Rightarrow> (crawl \<times> crawl) set" where
  "crawlOrder pages = inv_image (less_than <*lex*> less_than <*lex*> less_than) (crawlWork pages)"

definition knownChildren :: "string list \<Rightarrow> crawl \<Rightarrow> bool" where
  "knownChildren pages c \<longleftrightarrow> list_all (\<lambda>t. set (startable t) \<subseteq> set pages) (pendingTasks c)"

text \<open>What stands in the place of a call after its step: nothing, or the call gone on.\<close>

definition standing :: "task option \<Rightarrow> task list" where
  "standing next = (case next of None \<Rightarrow> [] | Some t \<Rightarrow> [t])"

section \<open>Observations on a history\<close>

text \<open>
  \<open>grows P w w'\<close>: the history \<open>w'\<close> is \<open>w\<close> followed by events that all satisfy
  \<open>P\<close>.
\<close>

definition grows :: "(event \<Rightarrow> bool) \<Rightarrow> world \<Rightarrow> world \<Rightarrow> bool" where
  "grows P w w' = (\<exists>tr. w' = w @ tr \<and> list_all P tr)"

text \<open>An event that is not the archival of the root page, whatever the dashes in its id.\<close>

fun sparesRoot :: "string \<Rightarrow> event \<Rightarrow> bool" where
  "sparesRoot pageId (Call (PagesArchive i)) = (stripDashes i \<noteq> stripDashes pageId)"
| "sparesRoot pageId e = True"

text \<open>An event that is not an append request of more than \<open>NOTION_BLOCK_LIMIT\<close> blocks.\<close>

fun smallAppend :: "event \<Rightarrow> bool" where
  "smallAppend (Call (ChildrenAppend blockId blocks after)) =
     (length blocks \<le> NOTION_BLOCK_LIMIT)"
| "smallAppend e = True"

text \<open>Append requests, delete requests, and the ids a history asks to delete, in order.\<close>

fun isAppend :: "event \<Rightarrow> bool" where
  "isAppend (Call (ChildrenAppend blockId blocks after)) = True"
| "isAppend e = False"

fun isDelete :: "event \<Rightarrow> bool" where
  "isDelete (Call (BlocksDelete blockId)) = True"
| "isDelete e = False"

fun deleteIds :: "event list \<Rightarrow> string option list" where
  "deleteIds [] = []"
| "deleteIds (Call (BlocksDelete blockId) # es) = blockId # deleteIds es"
| "deleteIds (e # es) = deleteIds es"

section \<open>A remote for the worked examples\<close>

text \<open>
  A remote that accepts every write, lists no block and knows no page. The ids it gives
  to appended blocks are made of the parent's id and the block's payload.
\<close>

definition acceptingClient :: client where
  "acceptingClient =
     \<lparr>pages_retrieve = (\<lambda>pageId w. Inl (Error (Some 404) ''object_not_found'')),
      children_list = (\<lambda>blockId cursor w. Inr \<lparr>results = [], has_more = False, next_cursor = None\<rparr>),
      children_append = (\<lambda>blockId blocks after w. Inr (map (\<lambda>b. blockId @ ''>'' @ payload b) blocks)),
      blocks_delete = (\<lambda>blockId w. Inr ()),
      pages_create = (\<lambda>parentId pageTitle w.
        Inr \<lparr>p_object = ''page'', p_id = parentId @ ''/'' @ pageTitle, p_url = ''https://remote/'' @ pageTitle,
             properties = None\<rparr>),
      pages_update_archived = (\<lambda>pageId w. Inr ())\<rparr>"

text \<open>Two lists nested four deep: numbered items, and bulleted items.\<close>

definition deepNumbered :: block where
  "deepNumbered =
     Block None ''numbered_list_item'' ''1'' False (Some
       [Block None ''numbered_list_item'' ''2'' False (Some
         [Block None ''numbered_list_item'' ''3'' False (Some
           [Block None ''numbered_list_item'' ''4'' False None])])])"

definition deepBulleted :: block where
  "deepBulleted =
     Block None ''bulleted_list_item'' ''1'' False (Some
       [Block None ''bulleted_list_item'' ''2'' False (Some
         [Block None ''bulleted_list_item'' ''3'' False (Some
           [Block None ''bulleted_list_item'' ''4'' False None])])])"


text \<open>A merge engine that schedules one block for deletion twice, around an append.\<close>

definition twiceScheduled :: merge_engine where
  "twiceScheduled existingBlocks newBlocks =
     [DeleteBlock (Block (Some ''a'') ''paragraph'' ''old'' False None),
      AppendBlocks newBlocks None,
      DeleteBlock (Block (Some ''a'') ''paragraph'' ''old'' False None),
      DeleteBlock (Block (Some ''b'') ''paragraph'' ''older'' False None)]"

text \<open>Two blocks of a page as the remote lists them, and a block to be created.\<close>

definition firstExisting :: block where
  "firstExisting = Block (Some ''first'') ''paragraph'' ''one'' False None"

definition secondExisting :: block where
  "secondExisting = Block (Some ''second'') ''paragraph'' ''two'' False None"

definition newHeading :: block where
  "newHeading = Block None ''heading_1'' ''title'' False None"

text \<open>
  Remote pages for the worked examples: every page has a title, and lists the child
  pages a relation gives it. \<open>deepTree\<close> is a tree of depth 5; in \<open>cyclicPages\<close> the page
  \<open>d\<close> has two parents and the root \<open>a\<close> is a child of \<open>c\<close> and of \<open>d\<close>.
\<close>

definition titledPage :: "string \<Rightarrow> page_response" where
  "titledPage pageId =
     \<lparr>p_object = ''page'', p_id = pageId, p_url = ''https://remote/'' @ pageId,
      properties = Some [\<lparr>prop_type = ''title'',
        prop_title = Some [\<lparr>plain_text = Some (''T-'' @ pageId), text_content = None\<rparr>]\<rparr>]\<rparr>"

definition childPagesListed :: "string list \<Rightarrow> list_response" where
  "childPagesListed ids =
     \<lparr>results = map (\<lambda>childId. \<lparr>l_object = ''block'', l_id = childId, l_type = ''child_page'',
          l_payload = '''', l_has_children = False\<rparr>) ids,
      has_more = False, next_cursor = None\<rparr>"

definition remoteOf :: "(string \<Rightarrow> string list) \<Rightarrow> remote_pages" where
  "remoteOf childPages c pageId = Inr (titledPage pageId, childPagesListed (childPages pageId))"

definition deepTree :: "string \<Rightarrow> string list" where
  "deepTree pageId =
     (if pageId = ''p0'' then [''p1'', ''q1'']
      else if pageId = ''p1'' then [''p2'']
      else if pageId = ''p2'' then [''p3'']
      else if pageId = ''p3'' then [''p4'']
      else if pageId = ''p4'' then [''p5'']
      else [])"

definition cyclicPages :: "string \<Rightarrow> string list" where
  "cyclicPages pageId =
     (if pageId = ''a'' then [''b'', ''c'']
      else if pageId = ''b'' then [''d'']
      else if pageId = ''c'' then [''d'', ''a'']
      else if pageId = ''d'' then [''a'']
      else [])"

text \<open>
  An index with a folder and two pages below it, a deep path with a short key, a shallow
  path with a long key, and the page of a file of the local tree.
\<close>

definition orphanIndex :: page_index where
  "orphanIndex =
     [(''./docs/a'', \<lparr>link_id = ''p-docs-a'', link = ''u1''\<rparr>),
      (''./documentation'', \<lparr>link_id = ''p-documentation'', link = ''u2''\<rparr>),
      (''./readme'', \<lparr>link_id = ''p-readme'', link = ''u3''\<rparr>),
      (''./docs'', \<lparr>link_id = ''p-docs'', link = ''u4''\<rparr>),
      (''./a/b/c'', \<lparr>link_id = ''p-c'', link = ''u5''\<rparr>),
      (''./docs/a/deep'', \<lparr>link_id = ''p-deep'', link = ''u6''\<rparr>)]"

text \<open>
  A remote that lists the two blocks of one page in two list pages, the content of that
  page as the local file gives it, and a local tree with that one file, read without a
  change tracker (\<open>hasChanged\<close> is then \<open>true\<close> for every file).
\<close>

definition pagedClient :: client where
  "pagedClient =
     acceptingClient\<lparr>children_list := (\<lambda>blockId cursor w.
        Inr (if blockId = ''page'' \<and> cursor = None then
               \<lparr>results = [\<lparr>l_object = ''block'', l_id = ''x1'', l_type = ''paragraph'',
                    l_payload = ''one'', l_has_children = False\<rparr>],
                 has_more = True, next_cursor = Some ''c2''\<rparr>
             else if blockId = ''page'' \<and> cursor = Some ''c2'' then
               \<lparr>results = [\<lparr>l_object = ''block'', l_id = ''x2'', l_type = ''paragraph'',
                    l_payload = ''two'', l_has_children = False\<rparr>],
                 has_more = False, next_cursor = None\<rparr>
             else \<lparr>results = [], has_more = False, next_cursor = None\<rparr>))\<rparr>"

definition pagedContent :: "block list" where
  "pagedContent =
     [Block None ''paragraph'' ''one'' False None, Block None ''paragraph'' ''two'' False None]"

definition pagedTree :: Folder where
  "pagedTree =
     Folder ''.''
       [\<lparr>fileName = ''notes'', getContent = (\<lambda>links. pagedContent), hasChanged = Some True\<rparr>] []"

section \<open>Properties of the retry loop\<close>

lemma retryWithBackoff_first_ok:
  "fn w = (Ok v, w') \<Longrightarrow> 1 \<le> maxAttempts \<Longrightarrow>
   retryWithBackoff fn maxAttempts initialDelay w = (Ok v, w')"
  unfolding retryWithBackoff_def by (subst retryLoop.simps) simp

lemma retryLoop_always_transient:
  assumes "\<forall>h. \<exists>e. respond h = Inl e \<and> isRateLimit e"
  shows "1 \<le> attempt \<Longrightarrow> attempt + int k = maxAttempts \<Longrightarrow>
     retryLoop (invoke respond r) maxAttempts initialDelay attempt lastError w =
       (answer (respond (w @ failedAttempts r initialDelay (nat attempt) k)),
        w @ failedAttempts r initialDelay (nat attempt) k @ [Call r])"
proof (induction k arbitrary: attempt lastError w)
  case 0
  obtain e where e: "respond w = Inl e" using assms by blast
  from 0 have "attempt = maxAttempts" by simp
  then show ?case
    using e by (subst retryLoop.simps) (simp add: invoke_def answer_def)
next
  case (Suc k)
  obtain e where e: "respond w = Inl e" "isRateLimit e" using assms by blast
  have lt: "attempt < maxAttempts" using Suc.prems by simp
  have next_ok: "1 \<le> attempt + 1" "attempt + 1 + int k = maxAttempts"
    using Suc.prems by simp_all
  have n: "nat (attempt + 1) = Suc (nat attempt)" using Suc.prems by simp
  have pw: "nat (attempt - 1) = nat attempt - 1" by simp
  have "retryLoop (invoke respond r) maxAttempts initialDelay attempt lastError w =
      retryLoop (invoke respond r) maxAttempts initialDelay (attempt + 1) (Some e)
        (w @ [Call r, Slept (initialDelay * 2 ^ (nat attempt - 1))])"
    using e lt by (subst retryLoop.simps) (simp add: invoke_def answer_def sleep_def pw)
  then show ?case
    using Suc.IH [OF next_ok] by (simp add: n)
qed

text \<open>
  C2. An operation that fails with status 429 or 503 whenever it is invoked is invoked
  exactly \<open>maxAttempts\<close> times (for \<open>maxAttempts \<ge> 1\<close>): the history grows by
  \<open>maxAttempts - 1\<close> failed attempts, attempt number \<open>a\<close> followed by a sleep of
  \<open>initialDelay * 2 ^ (a - 1)\<close>, and by one last attempt with no sleep after it, whose
  error is the one thrown. And at whatever attempt the loop stands, a failure that is not
  such a signal is thrown at once: the history ends with that invocation.
\<close>

theorem retryWithBackoff_ceiling:
  "((\<forall>h. \<exists>e. respond h = Inl e \<and> isRateLimit e) \<longrightarrow> 1 \<le> maxAttempts \<longrightarrow>
     retryWithBackoff (invoke respond r) maxAttempts initialDelay w =
       (answer (respond (w @ failedAttempts r initialDelay 1 (nat (maxAttempts - 1)))),
        w @ failedAttempts r initialDelay 1 (nat (maxAttempts - 1)) @ [Call r])
     \<and> length (filter (\<lambda>ev. ev = Call r)
          (failedAttempts r initialDelay 1 (nat (maxAttempts - 1)) @ [Call r]))
        = nat maxAttempts)
   \<and> (attempt \<le> maxAttempts \<longrightarrow> fn w = (Throw e, w') \<longrightarrow> \<not> isRateLimit e \<longrightarrow>
     retryLoop fn maxAttempts initialDelay attempt lastError w = (Throw e, w'))"
proof (intro conjI impI)
  assume a: "\<forall>h. \<exists>e. respond h = Inl e \<and> isRateLimit e" and m: "1 \<le> maxAttempts"
  have "(1::int) + int (nat (maxAttempts - 1)) = maxAttempts" using m by simp
  from retryLoop_always_transient [OF a _ this, of r initialDelay None w]
  show "retryWithBackoff (invoke respond r) maxAttempts initialDelay w =
     (answer (respond (w @ failedAttempts r initialDelay 1 (nat (maxAttempts - 1)))),
      w @ failedAttempts r initialDelay 1 (nat (maxAttempts - 1)) @ [Call r])"
    by (simp add: retryWithBackoff_def)
next
  assume m: "1 \<le> maxAttempts"
  have count: "length (filter (\<lambda>ev. ev = Call r) (failedAttempts r initialDelay a k)) = k"
    for a k
    by (induction k arbitrary: a) simp_all
  show "length (filter (\<lambda>ev. ev = Call r)
        (failedAttempts r initialDelay 1 (nat (maxAttempts - 1)) @ [Call r]))
      = nat maxAttempts"
    using m by (simp add: count)
next
  assume "attempt \<le> maxAttempts" "fn w = (Throw e, w')" "\<not> isRateLimit e"
  then show "retryLoop fn maxAttempts initialDelay attempt lastError w = (Throw e, w')"
    by (subst retryLoop.simps) simp
qed


theorem retryWithBackoff_ceiling_witness:
  "retryWithBackoff (invoke (\<lambda>h. (Inl (Error (Some 429) ''rate limited'') :: error + unit))
        (BlocksDelete (Some ''b1''))) 3 1000 []
     = (Throw (Error (Some 429) ''rate limited''),
        [Call (BlocksDelete (Some ''b1'')), Slept 1000,
         Call (BlocksDelete (Some ''b1'')), Slept 2000,
         Call (BlocksDelete (Some ''b1''))])
   \<and> retryLoop (invoke (\<lambda>h. (Inl (Error (Some 400) ''bad request'') :: error + unit))
        (BlocksDelete (Some ''b1''))) 3 1000 1 None []
     = (Throw (Error (Some 400) ''bad request''), [Call (BlocksDelete (Some ''b1''))])"
  using retryWithBackoff_ceiling [where respond = "\<lambda>h. (Inl (Error (Some 429) ''rate limited'') :: error + unit)"
      and maxAttempts = 3 and r = "BlocksDelete (Some ''b1'')" and initialDelay = 1000 and w = "[]"
      and attempt = 1
      and fn = "invoke (\<lambda>h. (Inl (Error (Some 400) ''bad request'') :: error + unit)) (BlocksDelete (Some ''b1''))"
      and e = "Error (Some 400) ''bad request''" and w' = "[Call (BlocksDelete (Some ''b1''))]"
      and lastError = None]
  by (simp add: isRateLimit_def invoke_def answer_def eval_nat_numeral)

section \<open>Properties of the archival pass\<close>

lemma archiveLoop_skip_noncandidate:
  "\<not> isCandidate pageId processed l \<Longrightarrow>
   archiveLoop notion pageId processed ((k, l) # rest) archived w =
   archiveLoop notion pageId processed rest archived w"
  by (auto simp: isCandidate_def)

lemma archiveLoop_candidate:
  "isCandidate pageId processed l \<Longrightarrow>
   archiveLoop notion pageId processed ((k, l) # rest) archived w =
     (if hasArchivedAncestor archived k then
        archiveLoop notion pageId processed rest archived w
      else
        (case archivePage notion (link_id l) w of
           (Ok u, w') \<Rightarrow>
             archiveLoop notion pageId processed rest (set_add k archived) w'
         | (Throw e, w') \<Rightarrow> (Throw e, w')
         | (OutOfFuel, w') \<Rightarrow> (OutOfFuel, w')))"
  by (auto simp: isCandidate_def)

declare archiveLoop.simps(2) [simp del]

lemma docs_children_have_archived_ancestor:
  "hasArchivedAncestor [''./docs''] ''./docs/a''"
  "hasArchivedAncestor [''./docs''] ''./docs/b''"
  "\<not> hasArchivedAncestor [] ''./docs''"
  by (simp_all add: hasArchivedAncestor_def ancestorPaths_def)

lemma archiveLoop_after_docs:
  "\<forall>(k, l) \<in> set xs. isCandidate pageId processed l \<longrightarrow> k = ''./docs/a'' \<or> k = ''./docs/b'' \<Longrightarrow>
   archiveLoop notion pageId processed xs [''./docs''] w = (Ok [''./docs''], w)"
proof (induction xs)
  case Nil
  then show ?case by simp
next
  case (Cons x xs)
  obtain k l where x: "x = (k, l)" by (cases x)
  show ?case
  proof (cases "isCandidate pageId processed l")
    case False
    then show ?thesis using Cons x by (simp add: archiveLoop_skip_noncandidate)
  next
    case True
    then have "k = ''./docs/a'' \<or> k = ''./docs/b''" using Cons.prems x by auto
    then have "hasArchivedAncestor [''./docs''] k"
      using docs_children_have_archived_ancestor by auto
    then show ?thesis using Cons x True by (simp add: archiveLoop_candidate)
  qed
qed


lemma archiveLoop_before_docs:
  assumes cand_d: "isCandidate pageId processed d"
  shows "sorted (map (\<lambda>entry. length (fst entry)) xs) \<Longrightarrow> distinct (map fst xs) \<Longrightarrow>
     (''./docs'', d) \<in> set xs \<Longrightarrow>
     \<forall>(k, l) \<in> set xs. isCandidate pageId processed l \<longrightarrow>
        k = ''./docs'' \<or> k = ''./docs/a'' \<or> k = ''./docs/b'' \<Longrightarrow>
     archiveLoop notion pageId processed xs [] w =
       (case archivePage notion (link_id d) w of
          (Ok u, w') \<Rightarrow> (Ok [''./docs''], w')
        | (Throw e, w') \<Rightarrow> (Throw e, w')
        | (OutOfFuel, w') \<Rightarrow> (OutOfFuel, w'))"
proof (induction xs)
  case Nil
  then show ?case by simp
next
  case (Cons x xs)
  obtain k l where x: "x = (k, l)" by (cases x)
  show ?case
  proof (cases "isCandidate pageId processed l")
    case False
    then have "(''./docs'', d) \<in> set xs" using Cons.prems(3) x cand_d by auto
    then show ?thesis
      using Cons False x by (simp add: archiveLoop_skip_noncandidate)
  next
    case True
    then have k: "k = ''./docs'' \<or> k = ''./docs/a'' \<or> k = ''./docs/b''"
      using Cons.prems(4) x by auto
    show ?thesis
    proof (cases "k = ''./docs''")
      case True
      have "l = d"
      proof (rule ccontr)
        assume "l \<noteq> d"
        then have "(''./docs'', d) \<in> set xs" using Cons.prems(3) x True by auto
        then have "''./docs'' \<in> fst ` set xs" by force
        then show False using Cons.prems(2) x True by simp
      qed
      have rest: "\<forall>(k, l) \<in> set xs. isCandidate pageId processed l \<longrightarrow>
          k = ''./docs/a'' \<or> k = ''./docs/b''"
      proof (clarify)
        fix k' l'
        assume m: "(k', l') \<in> set xs" and c: "isCandidate pageId processed l'"
          and "k' \<noteq> ''./docs/b''"
        have "k' \<noteq> ''./docs''"
          using m Cons.prems(2) x True by force
        moreover have "k' = ''./docs'' \<or> k' = ''./docs/a'' \<or> k' = ''./docs/b''"
          using m c Cons.prems(4) by auto
        ultimately show "k' = ''./docs/a''" using \<open>k' \<noteq> ''./docs/b''\<close> by blast
      qed
      show ?thesis
        using x True \<open>l = d\<close> cand_d docs_children_have_archived_ancestor(3)
          archiveLoop_after_docs [OF rest]
        by (simp add: archiveLoop_candidate set_add_def split: prod.splits result.splits)
    next
      case False
      then have "(''./docs'', d) \<in> set xs" using Cons.prems(3) x by auto
      then have "length k \<le> length ''./docs''"
        using Cons.prems(1) x by force
      then show ?thesis using k False by auto
    qed
  qed
qed

lemma sortedEntries_props:
  "sorted (map (\<lambda>entry. length (fst entry)) (sortedEntries linkMap))"
  "set (sortedEntries linkMap) = set linkMap"
  "distinct (map fst linkMap) \<Longrightarrow> distinct (map fst (sortedEntries linkMap))"
  by (simp_all add: sortedEntries_def distinct_map)


lemma split_slash_nonempty: "split_slash s \<noteq> []"
  by (cases s) simp_all

lemma join_slash_cons_hd: "ps \<noteq> [] \<Longrightarrow> join_slash ((c # hd ps) # tl ps) = c # join_slash ps"
  by (cases ps rule: join_slash.cases) simp_all

lemma join_split_slash: "join_slash (split_slash s) = s"
proof (induction s)
  case Nil
  then show ?case by simp
next
  case (Cons c cs)
  show ?case
  proof (cases "c = CHR ''/''")
    case True
    obtain p ps where "split_slash cs = p # ps"
      using split_slash_nonempty [of cs] by (cases "split_slash cs") auto
    then show ?thesis using True Cons by simp
  next
    case False
    then show ?thesis
      using Cons join_slash_cons_hd [OF split_slash_nonempty, of c cs] by simp
  qed
qed

lemma join_slash_append:
  "xs \<noteq> [] \<Longrightarrow> ys \<noteq> [] \<Longrightarrow> join_slash (xs @ ys) = join_slash xs @ ''/'' @ join_slash ys"
proof (induction xs rule: join_slash.induct)
  case 1
  then show ?case by simp
next
  case (2 p)
  then show ?case by (cases ys) simp_all
next
  case (3 p q ps)
  then show ?case by simp
qed

lemma ancestor_shorter:
  assumes "anc \<in> set (ancestorPaths key)"
  shows "length anc < length key"
proof -
  obtain i where i: "1 \<le> i" "i < length (split_slash key)"
    and anc: "anc = join_slash (take i (split_slash key))"
    using assms by (auto simp: ancestorPaths_def Let_def)
  have "join_slash (take i (split_slash key) @ drop i (split_slash key)) =
      join_slash (take i (split_slash key)) @ ''/'' @ join_slash (drop i (split_slash key))"
    using i by (intro join_slash_append) auto
  then have "key = anc @ ''/'' @ join_slash (drop i (split_slash key))"
    by (simp add: anc join_split_slash)
  then have "length key = length anc + 1 + length (join_slash (drop i (split_slash key)))"
    by (metis length_append add.assoc length_Cons list.size(3) One_nat_def plus_1_eq_Suc)
  then show ?thesis by simp
qed

lemma sorted_shorter_first:
  assumes "sorted (map f xs)" "x \<in> set xs" "y \<in> set xs" "f x < f y"
  shows "\<exists>pre mid post. xs = pre @ x # mid @ y # post"
proof -
  obtain ys zs where xs: "xs = ys @ y # zs"
    using assms(3) by (auto simp: in_set_conv_decomp)
  have "x \<notin> set zs"
  proof
    assume "x \<in> set zs"
    then have "f y \<le> f x" using assms(1) xs by (auto simp: sorted_append)
    then show False using assms(4) by simp
  qed
  moreover have "x \<noteq> y" using assms(4) by auto
  ultimately have "x \<in> set ys" using assms(2) xs by auto
  then obtain pre mid where "ys = pre @ x # mid" by (auto simp: in_set_conv_decomp)
  then show ?thesis using xs by auto
qed

text \<open>
  C3. Let the index hold entries under the keys \<open>./docs\<close>, \<open>./docs/a\<close> and
  \<open>./docs/b\<close>, all three candidates for archival (not the root's, not touched in the
  run), and let no other entry of the index be a candidate. Then, whatever the remote
  does, the archival pass is one call of \<open>archivePage\<close>, for the page of \<open>./docs\<close>: it
  leaves the history that call leaves, it fails if that call fails, and otherwise the only
  key archived is \<open>./docs\<close>. When the remote accepts the request, the history grows by
  exactly one request, the archival of the page of \<open>./docs\<close>.
\<close>

theorem archival_of_docs_subtree:
  assumes "distinct (map fst linkMap)"
    and "(''./docs'', docs) \<in> set linkMap"
    and "(''./docs/a'', docsA) \<in> set linkMap"
    and "(''./docs/b'', docsB) \<in> set linkMap"
    and "isCandidate pageId processedNotionPageIds docs"
    and "isCandidate pageId processedNotionPageIds docsA"
    and "isCandidate pageId processedNotionPageIds docsB"
    and "\<forall>(key, pageLink) \<in> set linkMap.
           key \<noteq> ''./docs'' \<and> key \<noteq> ''./docs/a'' \<and> key \<noteq> ''./docs/b'' \<longrightarrow>
           \<not> isCandidate pageId processedNotionPageIds pageLink"
  shows "archiveOrphans notion pageId processedNotionPageIds linkMap w =
       (case archivePage notion (link_id docs) w of
          (Ok u, w') \<Rightarrow> (Ok [''./docs''], w')
        | (Throw e, w') \<Rightarrow> (Throw e, w')
        | (OutOfFuel, w') \<Rightarrow> (OutOfFuel, w'))
     \<and> (pages_update_archived notion (link_id docs) w = Inr () \<longrightarrow>
          archiveOrphans notion pageId processedNotionPageIds linkMap w =
            (Ok [''./docs''], w @ [Call (PagesArchive (link_id docs))]))"
proof -
  have cands: "\<forall>(k, l) \<in> set (sortedEntries linkMap).
      isCandidate pageId processedNotionPageIds l \<longrightarrow>
      k = ''./docs'' \<or> k = ''./docs/a'' \<or> k = ''./docs/b''"
    using assms(8) by (auto simp: sortedEntries_props(2))
  have pass: "archiveOrphans notion pageId processedNotionPageIds linkMap w =
       (case archivePage notion (link_id docs) w of
          (Ok u, w') \<Rightarrow> (Ok [''./docs''], w')
        | (Throw e, w') \<Rightarrow> (Throw e, w')
        | (OutOfFuel, w') \<Rightarrow> (OutOfFuel, w'))"
    unfolding archiveOrphans_def
    using assms(2) cands
    by (intro archiveLoop_before_docs [OF assms(5)] sortedEntries_props(1)
        sortedEntries_props(3) [OF assms(1)]) (simp_all add: sortedEntries_props(2))
  have once: "archivePage notion (link_id docs) w = (Ok (), w @ [Call (PagesArchive (link_id docs))])"
    if "pages_update_archived notion (link_id docs) w = Inr ()"
    unfolding archivePage_def
    using that
    by (intro retryWithBackoff_first_ok) (simp_all add: MAX_RETRY_ATTEMPTS_def invoke_def answer_def)
  show ?thesis using pass once by simp
qed

theorem archival_of_docs_subtree_witness:
  "archiveOrphans acceptingClient ''root-page'' [''root-page'', ''p-readme'']
     [(''./docs/b'', \<lparr>link_id = ''p-b'', link = ''ub''\<rparr>),
      (''./readme'', \<lparr>link_id = ''p-readme'', link = ''ur''\<rparr>),
      (''./docs/a'', \<lparr>link_id = ''p-a'', link = ''ua''\<rparr>),
      (''./docs'', \<lparr>link_id = ''p-docs'', link = ''ud''\<rparr>),
      (''./Home'', \<lparr>link_id = ''rootpage'', link = ''uh''\<rparr>)] [] =
   (Ok [''./docs''], [Call (PagesArchive ''p-docs'')])"
  using archival_of_docs_subtree [where linkMap =
        "[(''./docs/b'', \<lparr>link_id = ''p-b'', link = ''ub''\<rparr>),
          (''./readme'', \<lparr>link_id = ''p-readme'', link = ''ur''\<rparr>),
          (''./docs/a'', \<lparr>link_id = ''p-a'', link = ''ua''\<rparr>),
          (''./docs'', \<lparr>link_id = ''p-docs'', link = ''ud''\<rparr>),
          (''./Home'', \<lparr>link_id = ''rootpage'', link = ''uh''\<rparr>)]"
      and docs = "\<lparr>link_id = ''p-docs'', link = ''ud''\<rparr>"
      and docsA = "\<lparr>link_id = ''p-a'', link = ''ua''\<rparr>"
      and docsB = "\<lparr>link_id = ''p-b'', link = ''ub''\<rparr>"
      and pageId = "''root-page''" and processedNotionPageIds = "[''root-page'', ''p-readme'']"
      and notion = acceptingClient and w = "[]", THEN conjunct2]
  by (simp add: isCandidate_def isRootPage_def stripDashes_def acceptingClient_def)

section \<open>What each part of the run adds to the history\<close>

lemma grows_refl [simp]: "grows P w w"
  by (simp add: grows_def)

lemma grows_trans: "grows P w w' \<Longrightarrow> grows P w' w'' \<Longrightarrow> grows P w w''"
  by (auto simp: grows_def)

lemma grows_mono: "grows P w w' \<Longrightarrow> (\<And>e. P e \<Longrightarrow> Q e) \<Longrightarrow> grows Q w w'"
  by (auto simp: grows_def list_all_iff)

lemma grows_snoc: "P e \<Longrightarrow> grows P w (w @ [e])"
  by (simp add: grows_def)

lemma grows_andThen:
  assumes "grows P w (snd (m w))"
    and "\<And>v w'. m w = (Ok v, w') \<Longrightarrow> grows P w' (snd (f v w'))"
  shows "grows P w (snd (andThen m f w))"
proof (cases "m w")
  case (Pair r w')
  then show ?thesis
    using assms grows_trans [of P w w' "snd (f v w')" for v]
    by (cases r) (auto simp: andThen_def)
qed

lemma grows_returns [simp]: "grows P w (snd (returns v w))"
  by (simp add: returns_def)

lemma grows_invoke: "P (Call r) \<Longrightarrow> grows P w (snd (invoke respond r w))"
  by (simp add: invoke_def grows_snoc)

lemma grows_retryLoop:
  assumes "\<And>w. grows P w (snd (fn w))" and "\<And>d. P (Slept d)"
  shows "grows P w (snd (retryLoop fn maxAttempts initialDelay attempt lastError w))"
proof (induction "nat (maxAttempts + 1 - attempt)" arbitrary: attempt lastError w)
  case 0
  then have "\<not> attempt \<le> maxAttempts" by simp
  then show ?case
    by (subst retryLoop.simps) (simp split: option.splits)
next
  case (Suc k)
  then have le: "attempt \<le> maxAttempts" by simp
  obtain r w' where fw: "fn w = (r, w')" by (cases "fn w")
  have g: "grows P w w'" using assms(1) [of w] fw by simp
  show ?case
  proof (cases r)
    case (Ok v)
    then show ?thesis using le fw g by (subst retryLoop.simps) simp
  next
    case OutOfFuel
    then show ?thesis using le fw g by (subst retryLoop.simps) simp
  next
    case (Throw e)
    show ?thesis
    proof (cases "attempt = maxAttempts \<or> \<not> isRateLimit e")
      case True
      then show ?thesis using le fw g Throw by (subst retryLoop.simps) auto
    next
      case False
      have k: "k = nat (maxAttempts + 1 - (attempt + 1))" using Suc.hyps(2) by simp
      have "grows P w' (sleep (initialDelay * 2 ^ nat (attempt - 1)) w')"
        by (simp add: sleep_def grows_snoc assms(2))
      then have "grows P w (snd (retryLoop fn maxAttempts initialDelay (attempt + 1) (Some e)
          (sleep (initialDelay * 2 ^ nat (attempt - 1)) w')))"
        using g Suc.hyps(1) [OF k] grows_trans by blast
      then show ?thesis using le fw Throw False by (subst retryLoop.simps) simp
    qed
  qed
qed

lemma grows_retryWithBackoff:
  assumes "\<And>w. grows P w (snd (fn w))" and "\<And>d. P (Slept d)"
  shows "grows P w (snd (retryWithBackoff fn maxAttempts initialDelay w))"
  unfolding retryWithBackoff_def using assms by (rule grows_retryLoop)

lemma grows_remote:
  assumes "P (Call r)" and "\<And>d. P (Slept d)"
  shows "grows P w (snd (retryWithBackoff (invoke respond r) maxAttempts initialDelay w))"
  using assms by (intro grows_retryWithBackoff grows_invoke)

lemma grows_processInParallel:
  assumes "\<And>item w. item \<in> set items \<Longrightarrow> grows P w (snd (processor item w))"
  shows "grows P w (snd (processInParallel items processor w))"
  using assms
proof (induction items arbitrary: w)
  case Nil
  then show ?case by simp
next
  case (Cons item items)
  show ?case
    unfolding processInParallel.simps
    by (intro grows_andThen grows_returns Cons.prems Cons.IH) simp_all
qed

declare appendBlocksInChunks.simps [simp del] appendChunks.simps [simp del]

lemma grows_appendBlocksInChunks:
  assumes app: "\<And>blockId bs after. length bs \<le> NOTION_BLOCK_LIMIT \<Longrightarrow>
      P (Call (ChildrenAppend blockId bs after))"
    and slept: "\<And>d. P (Slept d)"
  shows "grows P w (snd (appendBlocksInChunks notion m pageId blocks afterId w))"
    and "grows P w (snd (appendChunks notion m pageId limitChild blocks afterId w))"
    and "grows P w (snd (appendChildren notion m response cs w))"
proof (induction notion m pageId blocks afterId w
    and notion m pageId limitChild blocks afterId w
    and notion m response cs w
    rule: appendBlocksInChunks_appendChunks_appendChildren.induct)
  case (1 notion maxRetryAttempts pageId blocks afterId w)
  then show ?case by (simp add: appendBlocksInChunks.simps)
next
  case (2 notion maxRetryAttempts pageId limitChild blocks afterId w)
  show ?case
  proof (cases "blocks = []")
    case True
    then show ?thesis by (simp add: appendChunks.simps)
  next
    case False
    have first: "grows P w' (snd (retryWithBackoff
        (invoke
           (children_append notion pageId
              (map (detach limitChild) (take NOTION_BLOCK_LIMIT blocks)) (truthy afterId))
           (ChildrenAppend pageId
              (map (detach limitChild) (take NOTION_BLOCK_LIMIT blocks)) (truthy afterId)))
        maxRetryAttempts INITIAL_RETRY_DELAY w'))" for w'
      by (intro grows_remote app slept) simp
    show ?thesis
      apply (subst appendChunks.simps)
      apply (simp only: False if_False)
      apply (intro grows_andThen first)
       apply (rule 2(1) [OF False])
       apply assumption
      apply (rule 2(2) [OF False])
       apply assumption
      apply assumption
      done
  qed
next
  case (3 notion maxRetryAttempts response w)
  then show ?case by simp
next
  case (4 notion maxRetryAttempts response index cs rest w)
  show ?case
  proof (cases "index < length response")
    case True
    show ?thesis
      apply (subst appendChildren.simps(2))
      apply (simp only: True if_True)
      apply (intro grows_andThen)
       apply (rule 4(1) [OF True])
      apply (rule 4(2) [OF True])
      apply assumption
      done
  next
    case False
    then show ?thesis by simp
  qed
qed

lemma grows_createOrUpdatePage:
  assumes "\<And>parentId t. P (Call (PagesCreate parentId t))" and "\<And>d. P (Slept d)"
    and "\<And>i w. grows P w (snd (onUpdated i w))"
  shows "grows P w (snd (createOrUpdatePage notion m linkMap folderName parentId parentName
      onUpdated w))"
  unfolding createOrUpdatePage_def Let_def
  by (auto split: option.splits intro!: grows_andThen grows_remote assms)

lemma grows_doNothing [simp]: "grows P w (snd (doNothing i w))"
  by (simp add: doNothing_def)

lemma grows_syncFiles:
  assumes "\<And>parentId t. P (Call (PagesCreate parentId t))" and "\<And>d. P (Slept d)"
  shows "grows P w (snd (syncFiles notion m fs folderPageId childParentName st w))"
proof (induction fs arbitrary: st w)
  case Nil
  then show ?case by simp
next
  case (Cons f rest)
  obtain linkMap pages folderPageIds where st: "st = (linkMap, pages, folderPageIds)"
    by (cases st)
  show ?case
    unfolding st syncFiles.simps
    by (intro grows_andThen grows_createOrUpdatePage assms grows_doNothing)
      (auto simp: Cons.IH)
qed

lemma grows_syncFolder:
  assumes "\<And>parentId t. P (Call (PagesCreate parentId t))" and "\<And>d. P (Slept d)"
  shows "grows P w (snd (syncFolder notion m dirName folder parentId parentName createFolder st w))"
    and "grows P w (snd (syncSubfolders notion m dirName folders parentId parentName st w))"
proof (induction notion m dirName folder parentId parentName createFolder st w
    and notion m dirName folders parentId parentName st w
    rule: syncFolder_syncSubfolders.induct)
  case (1 notion maxRetryAttempts dirName folderName folderFiles folderSubfolders parentId
      parentName createFolder linkMap pages folderPageIds w)
  have create: "grows P w (snd ((if createFolder
        then createOrUpdatePage notion maxRetryAttempts linkMap folderName parentId parentName
               doNothing
        else returns (parentId, linkMap)) w))"
    by (auto intro!: grows_createOrUpdatePage assms)
  have rest: "grows P w' (snd ((case v of (folderPageId, linkMap') \<Rightarrow>
          andThen
            (syncFiles notion maxRetryAttempts folderFiles folderPageId
               (if dirName = folderName then parentName else parentName @ ''/'' @ folderName)
               (linkMap', pages, set_add folderPageId folderPageIds))
            (syncSubfolders notion maxRetryAttempts dirName folderSubfolders folderPageId
               (if dirName = folderName then parentName else parentName @ ''/'' @ folderName)))
          w'))"
    if run: "(if createFolder
        then createOrUpdatePage notion maxRetryAttempts linkMap folderName parentId parentName
               doNothing
        else returns (parentId, linkMap)) w = (Ok v, w')" for v w'
  proof -
    obtain folderPageId linkMap' where v: "v = (folderPageId, linkMap')" by (cases v)
    show ?thesis
      unfolding v prod.case
      apply (rule grows_andThen)
       apply (rule grows_syncFiles [OF assms])
      apply (rule 1 [OF run [unfolded v] refl])
      done
  qed
  show ?case
    apply (subst syncFolder.simps)
    apply (rule grows_andThen)
     apply (rule create)
    apply (rule rest)
    apply assumption
    done
next
  case (2 notion maxRetryAttempts dirName parentId parentName st w)
  then show ?case by simp
next
  case (3 notion maxRetryAttempts dirName subfolder rest parentId parentName st w)
  show ?case
    apply (subst syncSubfolders.simps)
    apply (rule grows_andThen)
     apply (rule 3(1))
    apply (rule 3(2))
    apply assumption
    done
qed


lemma grows_listPages:
  assumes "\<And>blockId cursor. P (Call (ChildrenList blockId cursor))" and "\<And>d. P (Slept d)"
  shows "grows P w (snd (listPages notion m pageId fuel cursor allBlocks pageRequests w))"
proof (induction fuel arbitrary: cursor allBlocks pageRequests w)
  case 0
  then show ?case by simp
next
  case (Suc fuel)
  show ?case
    unfolding listPages.simps
    by (intro grows_andThen grows_remote assms) (auto simp: Suc)
qed

lemma grows_getAllBlockPages:
  assumes "\<And>blockId cursor. P (Call (ChildrenList blockId cursor))" and "\<And>d. P (Slept d)"
  shows "grows P w (snd (getAllBlockPages notion m fuel pageId w))"
  unfolding getAllBlockPages_def
  by (intro grows_andThen grows_listPages assms)
    (auto intro!: grows_andThen grows_processInParallel grows_remote assms)

lemma grows_getExistingBlocks:
  assumes "\<And>blockId cursor. P (Call (ChildrenList blockId cursor))" and "\<And>d. P (Slept d)"
  shows "grows P w (snd (getExistingBlocks notion m fuel pageId maxDepth currentDepth w))"
proof (induction notion m fuel pageId maxDepth currentDepth w rule: getExistingBlocks.induct)
  case (1 notion maxRetryAttempts fuel pageId maxDepth currentDepth w)
  show ?case
    apply (subst getExistingBlocks.simps)
    apply (rule grows_andThen)
     apply (rule grows_getAllBlockPages [OF assms])
    apply (auto intro!: grows_processInParallel grows_andThen 1 [simplified])
    done
qed

lemma grows_appendCallback:
  assumes "\<And>blockId bs after. length bs \<le> NOTION_BLOCK_LIMIT \<Longrightarrow>
      P (Call (ChildrenAppend blockId bs after))"
    and "\<And>d. P (Slept d)"
  shows "grows P w (snd (appendCallback notion m pageId existingBlocks blocks after dels w))"
  unfolding appendCallback_def
  by (auto split: option.splits list.splits
      intro!: grows_andThen grows_appendBlocksInChunks(1) [OF assms])

lemma grows_applyEdits:
  assumes "\<And>blockId bs after. length bs \<le> NOTION_BLOCK_LIMIT \<Longrightarrow>
      P (Call (ChildrenAppend blockId bs after))"
    and "\<And>d. P (Slept d)"
  shows "grows P w (snd (applyEdits notion m pageId existingBlocks edits dels w))"
proof (induction edits arbitrary: dels w)
  case Nil
  then show ?case by simp
next
  case (Cons edit edits)
  show ?case
  proof (cases edit)
    case (AppendBlocks blocks after)
    show ?thesis
      unfolding AppendBlocks applyEdits.simps
      by (intro grows_andThen grows_appendCallback assms Cons.IH)
  next
    case (DeleteBlock b)
    then show ?thesis by (simp add: Cons.IH)
  qed
qed

lemma grows_deleteBlocks:
  assumes "\<And>blockId. blockId \<in> set dels \<Longrightarrow> P (Call (BlocksDelete blockId))"
    and "\<And>d. P (Slept d)"
  shows "grows P w (snd (deleteBlocks notion m dels w))"
  using assms(1)
proof (induction dels arbitrary: w)
  case Nil
  then show ?case by simp
next
  case (Cons blockId rest)
  show ?case
    unfolding deleteBlocks.simps
    by (intro grows_andThen grows_remote assms(2) Cons.IH Cons.prems) simp_all
qed

lemma grows_updateBlocks:
  assumes "\<And>blockId cursor. P (Call (ChildrenList blockId cursor))"
    and "\<And>blockId bs after. length bs \<le> NOTION_BLOCK_LIMIT \<Longrightarrow>
      P (Call (ChildrenAppend blockId bs after))"
    and "\<And>blockId. P (Call (BlocksDelete blockId))"
    and "\<And>d. P (Slept d)"
  shows "grows P w (snd (updateBlocks notion m engine fuel pageId newBlocks w))"
  unfolding updateBlocks_def
  by (intro grows_andThen grows_getExistingBlocks grows_applyEdits grows_deleteBlocks assms)

lemma grows_syncPages:
  assumes "\<And>blockId cursor. P (Call (ChildrenList blockId cursor))"
    and "\<And>blockId bs after. length bs \<le> NOTION_BLOCK_LIMIT \<Longrightarrow>
      P (Call (ChildrenAppend blockId bs after))"
    and "\<And>blockId. P (Call (BlocksDelete blockId))"
    and "\<And>d. P (Slept d)"
    and "\<And>p. P (SaveFileState p)"
  shows "grows P w (snd (syncPages notion m engine fuel syncStateManager linkUrlMap pages w))"
proof (induction pages arbitrary: w)
  case Nil
  then show ?case by simp
next
  case (Cons page pages)
  obtain pageId f where page: "page = (pageId, f)" by (cases page)
  have step: "grows P w' (snd (syncPages notion m engine fuel syncStateManager linkUrlMap
      pages (if syncStateManager then w' @ [SaveFileState (stateFilePath (fileName f))] else w')))"
    for w'
    using Cons.IH grows_trans [OF grows_snoc [of P "SaveFileState (stateFilePath (fileName f))" w']]
    by (auto simp: assms(5))
  show ?case
    unfolding page syncPages.simps
    by (auto intro!: grows_andThen grows_updateBlocks assms(1-4) step Cons.IH)
qed

lemma grows_archivePage:
  assumes "P (Call (PagesArchive i))" and "\<And>d. P (Slept d)"
  shows "grows P w (snd (archivePage notion i w))"
  unfolding archivePage_def by (intro grows_remote assms)

lemma grows_archiveLoop:
  assumes "\<And>pageLink. isCandidate pageId processed pageLink \<Longrightarrow>
      P (Call (PagesArchive (link_id pageLink)))"
    and "\<And>d. P (Slept d)"
  shows "grows P w (snd (archiveLoop notion pageId processed entries archived w))"
proof (induction entries arbitrary: archived w)
  case Nil
  then show ?case by simp
next
  case (Cons entry entries)
  obtain key pageLink where entry: "entry = (key, pageLink)" by (cases entry)
  show ?case
  proof (cases "isCandidate pageId processed pageLink")
    case False
    then show ?thesis
      unfolding entry by (simp add: archiveLoop_skip_noncandidate Cons.IH)
  next
    case True
    have a: "grows P w (snd (archivePage notion (link_id pageLink) w))"
      by (intro grows_archivePage assms True)
    show ?thesis
    proof (cases "archivePage notion (link_id pageLink) w")
      case (Pair r w')
      then show ?thesis
        unfolding entry archiveLoop_candidate [OF True]
        using a Cons.IH grows_trans [of P w w']
        by (cases r) auto
    qed
  qed
qed

lemma grows_syncToNotion:
  assumes "\<And>blockId cursor. P (Call (ChildrenList blockId cursor))"
    and "\<And>blockId bs after. length bs \<le> NOTION_BLOCK_LIMIT \<Longrightarrow>
      P (Call (ChildrenAppend blockId bs after))"
    and "\<And>blockId. P (Call (BlocksDelete blockId))"
    and "\<And>parentId t. P (Call (PagesCreate parentId t))"
    and "\<And>i. stripDashes i \<noteq> stripDashes pageId \<Longrightarrow> P (Call (PagesArchive i))"
    and "\<And>d. P (Slept d)"
    and "\<And>p. P (SaveFileState p)"
    and "P SavePendingChanges"
  shows "grows P w (snd (syncToNotion notion pageId dir linkMap deleteNonExistentFiles
      syncStateManager m engine fuel w))"
proof -
  have arch: "grows P w' (snd (archiveOrphans notion pageId processed lm w'))" for w' processed lm
    unfolding archiveOrphans_def
    by (intro grows_archiveLoop assms) (simp add: isCandidate_def isRootPage_def)
  have arch': "grows P w' (snd (andThen (archiveOrphans notion pageId processed lm)
      (\<lambda>archivedPages. returns ()) w'))" for w' processed lm
    by (intro grows_andThen arch grows_returns)
  have fin: "grows P w' (snd ((if deleteNonExistentFiles then
                  andThen (archiveOrphans notion pageId processed lm) (\<lambda>archivedPages. returns ())
                else returns ())
                 (if syncStateManager then w' @ [SavePendingChanges] else w')))"
    for w' processed lm
  proof (cases syncStateManager)
    case True
    have "grows P w' (w' @ [SavePendingChanges])" by (simp add: grows_snoc assms(8))
    then show ?thesis
      using True arch' [of "w' @ [SavePendingChanges]"] grows_trans by fastforce
  next
    case False
    then show ?thesis using arch' [of w'] by simp
  qed
  show ?thesis
    unfolding syncToNotion_def
    apply (rule grows_andThen)
     apply (rule grows_syncFolder(1))
      apply (rule assms)+
    apply (clarsimp simp del: syncFolder.simps split del: if_split)
    apply (rule grows_andThen)
     apply (rule grows_syncPages)
         apply (rule assms, (assumption)?)+
    apply (rule fin)
    done
qed


section \<open>The root page\<close>

text \<open>
  C8. Whatever the remote answers, the local tree, the page index and the merge engine, a
  run of \<open>syncToNotion\<close> with the archival of orphans enabled sends no request that
  archives a page whose id, dashes removed, is the id of the root page, dashes removed.
  The index may hold such an entry: the loop passes over it.
\<close>

theorem root_page_never_archived:
  "\<exists>tr. snd (syncToNotion notion pageId dir linkMap True syncStateManager maxRetryAttempts
            engine fuel w) = w @ tr
     \<and> (\<forall>i. Call (PagesArchive i) \<in> set tr \<longrightarrow> stripDashes i \<noteq> stripDashes pageId)"
proof -
  have "grows (sparesRoot pageId) w
      (snd (syncToNotion notion pageId dir linkMap True syncStateManager maxRetryAttempts
            engine fuel w))"
    by (intro grows_syncToNotion) simp_all
  then obtain tr where tr: "snd (syncToNotion notion pageId dir linkMap True syncStateManager
      maxRetryAttempts engine fuel w) = w @ tr" "list_all (sparesRoot pageId) tr"
    by (auto simp: grows_def)
  have "stripDashes i \<noteq> stripDashes pageId" if "Call (PagesArchive i) \<in> set tr" for i
    using tr(2) that by (auto simp: list_all_iff)
  then show ?thesis using tr(1) by blast
qed

lemma root_example_run:
  "syncToNotion acceptingClient ''0a1b-2c3d''
       (Folder ''.'' [\<lparr>fileName = ''notes'', getContent = (\<lambda>m. []), hasChanged = Some False\<rparr>] [])
       [(''./Home'', \<lparr>link_id = ''0a1b2c3d'', link = ''u0''\<rparr>),
        (''./old'', \<lparr>link_id = ''9f'', link = ''u1''\<rparr>)]
       True False 3 (\<lambda>e d. []) 5 []
   = (Ok (), [Call (PagesCreate ''0a1b-2c3d'' ''notes''), Call (PagesArchive ''9f'')])"
  by code_simp

theorem root_page_never_archived_witness:
  "(\<exists>tr. snd (syncToNotion acceptingClient ''0a1b-2c3d''
       (Folder ''.'' [\<lparr>fileName = ''notes'', getContent = (\<lambda>m. []), hasChanged = Some False\<rparr>] [])
       [(''./Home'', \<lparr>link_id = ''0a1b2c3d'', link = ''u0''\<rparr>),
        (''./old'', \<lparr>link_id = ''9f'', link = ''u1''\<rparr>)]
       True False 3 (\<lambda>e d. []) 5 []) = [] @ tr
      \<and> Call (PagesArchive ''9f'') \<in> set tr
      \<and> Call (PagesArchive ''0a1b2c3d'') \<notin> set tr)
   \<and> stripDashes ''0a1b2c3d'' = stripDashes ''0a1b-2c3d''"
  using root_page_never_archived [of acceptingClient "''0a1b-2c3d''"
      "Folder ''.'' [\<lparr>fileName = ''notes'', getContent = (\<lambda>m. []), hasChanged = Some False\<rparr>] []"
      "[(''./Home'', \<lparr>link_id = ''0a1b2c3d'', link = ''u0''\<rparr>),
        (''./old'', \<lparr>link_id = ''9f'', link = ''u1''\<rparr>)]"
      False 3 "\<lambda>e d. []" 5 "[]"]
  by (auto simp: root_example_run stripDashes_def)

section \<open>Chunks and detached children\<close>

lemma detach_bulleted:
  "b \<in> set (map (detach True) chunk) \<Longrightarrow> btype b = ''bulleted_list_item'' \<Longrightarrow>
   children b = None"
  by (auto simp: detach_def)

lemma detachedChildren_iff:
  "(index, cs) \<in> set (detachedChildren True start chunk) \<longleftrightarrow>
     start \<le> index \<and> index - start < length chunk \<and>
     btype (chunk ! (index - start)) = ''bulleted_list_item'' \<and>
     children (chunk ! (index - start)) = Some cs"
proof (induction chunk arbitrary: start)
  case Nil
  then show ?case by simp
next
  case (Cons b chunk)
  have shift: "Suc start \<le> index \<Longrightarrow> index - start = Suc (index - Suc start)"
    by simp
  show ?case
  proof (cases "index = start")
    case True
    then show ?thesis
      using Cons [of "Suc start"] by (auto split: option.splits)
  next
    case False
    then show ?thesis
      using Cons [of "Suc start"]
      by (cases "start \<le> index") (auto split: option.splits simp: shift nth_Cons')
  qed
qed

text \<open>
  C9, as amended. Every append request sent while the edits of a file are applied carries
  at most 100 blocks. When the list handed to \<open>appendBlocksInChunks\<close> nests deeper than
  3, the first chunk is sent with the children of its \<open>bulleted_list_item\<close> blocks taken
  off, the children taken off are appended next and the remaining chunks follow in the
  same way. In a chunk so prepared no \<open>bulleted_list_item\<close> carries children and a block
  of any other type is unchanged, children included; the children kept aside are those of
  the \<open>bulleted_list_item\<close> blocks, under the index of their block in the chunk; and
  the children kept under an index are appended, with no anchor, by a call of
  \<open>appendBlocksInChunks\<close> on the id the remote returned at that index.
\<close>

theorem append_calls_small_and_bulleted_children_detached:
  "(\<exists>tr. snd (updateBlocks notion maxRetryAttempts engine fuel pageId newBlocks w) = w @ tr
      \<and> (\<forall>blockId bs after. Call (ChildrenAppend blockId bs after) \<in> set tr \<longrightarrow>
             length bs \<le> 100))
   \<and> (3 < findMaxDepth (Some blocks) 0 \<longrightarrow> blocks \<noteq> [] \<longrightarrow>
        appendBlocksInChunks notion maxRetryAttempts pageId blocks afterId w =
          andThen
            (retryWithBackoff
               (invoke
                  (children_append notion pageId (map (detach True) (take 100 blocks))
                     (truthy afterId))
                  (ChildrenAppend pageId (map (detach True) (take 100 blocks)) (truthy afterId)))
               maxRetryAttempts INITIAL_RETRY_DELAY)
            (\<lambda>response.
               andThen
                 (appendChildren notion maxRetryAttempts response
                    (detachedChildren True 0 (take 100 blocks)))
                 (\<lambda>u. appendChunks notion maxRetryAttempts pageId True (drop 100 blocks)
                        afterId))
            w)
   \<and> (\<forall>b \<in> set (map (detach True) chunk).
        btype b = ''bulleted_list_item'' \<longrightarrow> children b = None)
   \<and> (\<forall>b \<in> set chunk. btype b \<noteq> ''bulleted_list_item'' \<longrightarrow> detach True b = b)
   \<and> ((index, cs) \<in> set (detachedChildren True 0 chunk) \<longleftrightarrow>
        index < length chunk \<and> btype (chunk ! index) = ''bulleted_list_item'' \<and>
        children (chunk ! index) = Some cs)
   \<and> (index < length response \<longrightarrow>
        appendChildren notion maxRetryAttempts response ((index, cs) # rest) w =
          andThen (appendBlocksInChunks notion maxRetryAttempts (response ! index) cs None)
            (\<lambda>u. appendChildren notion maxRetryAttempts response rest) w)"
proof (intro conjI impI ballI)
  have "grows smallAppend w
      (snd (updateBlocks notion maxRetryAttempts engine fuel pageId newBlocks w))"
    by (intro grows_updateBlocks) simp_all
  then obtain tr where tr: "snd (updateBlocks notion maxRetryAttempts engine fuel pageId
      newBlocks w) = w @ tr" "list_all smallAppend tr"
    by (auto simp: grows_def)
  have "length bs \<le> 100" if "Call (ChildrenAppend blockId bs after) \<in> set tr"
    for blockId bs after
    using tr(2) that by (auto simp: list_all_iff NOTION_BLOCK_LIMIT_def)
  then show "\<exists>tr. snd (updateBlocks notion maxRetryAttempts engine fuel pageId newBlocks w)
        = w @ tr
      \<and> (\<forall>blockId bs after. Call (ChildrenAppend blockId bs after) \<in> set tr \<longrightarrow>
             length bs \<le> 100)"
    using tr(1) by blast
next
  assume "3 < findMaxDepth (Some blocks) 0" "blocks \<noteq> []"
  then show "appendBlocksInChunks notion maxRetryAttempts pageId blocks afterId w =
          andThen
            (retryWithBackoff
               (invoke
                  (children_append notion pageId (map (detach True) (take 100 blocks))
                     (truthy afterId))
                  (ChildrenAppend pageId (map (detach True) (take 100 blocks)) (truthy afterId)))
               maxRetryAttempts INITIAL_RETRY_DELAY)
            (\<lambda>response.
               andThen
                 (appendChildren notion maxRetryAttempts response
                    (detachedChildren True 0 (take 100 blocks)))
                 (\<lambda>u. appendChunks notion maxRetryAttempts pageId True (drop 100 blocks)
                        afterId))
            w"
    by (simp add: appendBlocksInChunks.simps appendChunks.simps [of _ _ _ _ blocks]
        NOTION_BLOCK_LIMIT_def)
next
  fix b
  assume "b \<in> set (map (detach True) chunk)" "btype b = ''bulleted_list_item''"
  then show "children b = None" by (rule detach_bulleted)
next
  fix b
  assume "b \<in> set chunk" "btype b \<noteq> ''bulleted_list_item''"
  then show "detach True b = b" by (simp add: detach_def)
next
  show "(index, cs) \<in> set (detachedChildren True 0 chunk) \<longleftrightarrow>
        index < length chunk \<and> btype (chunk ! index) = ''bulleted_list_item'' \<and>
        children (chunk ! index) = Some cs"
    by (simp add: detachedChildren_iff)
next
  assume "index < length response"
  then show "appendChildren notion maxRetryAttempts response ((index, cs) # rest) w =
          andThen (appendBlocksInChunks notion maxRetryAttempts (response ! index) cs None)
            (\<lambda>u. appendChildren notion maxRetryAttempts response rest) w"
    by simp
qed

lemma deepBulleted_run:
  "appendBlocksInChunks acceptingClient 3 ''page'' [deepBulleted] None [] =
     (Ok (),
      [Call (ChildrenAppend ''page'' [Block None ''bulleted_list_item'' ''1'' False None] None),
       Call (ChildrenAppend ''page>1''
         [Block None ''bulleted_list_item'' ''2'' False (Some
           [Block None ''bulleted_list_item'' ''3'' False (Some
             [Block None ''bulleted_list_item'' ''4'' False None])])] None)])"
  by code_simp

lemma deepBulleted_depth: "findMaxDepth (Some [deepBulleted]) 0 = 4"
  by code_simp

theorem append_calls_small_and_bulleted_children_detached_witness:
  "3 < findMaxDepth (Some [deepBulleted]) 0
   \<and> andThen
        (retryWithBackoff
           (invoke
              (children_append acceptingClient ''page'' (map (detach True) (take 100 [deepBulleted]))
                 (truthy None))
              (ChildrenAppend ''page'' (map (detach True) (take 100 [deepBulleted])) (truthy None)))
           3 INITIAL_RETRY_DELAY)
        (\<lambda>response.
           andThen
             (appendChildren acceptingClient 3 response
                (detachedChildren True 0 (take 100 [deepBulleted])))
             (\<lambda>u. appendChunks acceptingClient 3 ''page'' True (drop 100 [deepBulleted]) None))
        [] =
      (Ok (),
       [Call (ChildrenAppend ''page'' [Block None ''bulleted_list_item'' ''1'' False None] None),
        Call (ChildrenAppend ''page>1''
          [Block None ''bulleted_list_item'' ''2'' False (Some
            [Block None ''bulleted_list_item'' ''3'' False (Some
              [Block None ''bulleted_list_item'' ''4'' False None])])] None)])"
proof -
  have d: "3 < findMaxDepth (Some [deepBulleted]) 0"
    by (simp only: deepBulleted_depth)
  have ne: "[deepBulleted] \<noteq> []" by simp
  note eq = append_calls_small_and_bulleted_children_detached
    [where blocks = "[deepBulleted]" and notion = acceptingClient and maxRetryAttempts = 3
      and pageId = "''page''" and afterId = None and w = "[]",
      THEN conjunct2, THEN conjunct1, THEN mp, OF d, THEN mp, OF ne]
  show ?thesis
    by (rule conjI [OF d trans [OF eq [symmetric] deepBulleted_run]])
qed

text \<open>
  C9 as stated fails on a list of numbered items nested four deep: the list nests deeper
  than 3, and the run is one request that carries the item with its children inline.
\<close>

theorem numbered_children_stay_inline:
  "3 < findMaxDepth (Some [deepNumbered]) 0
   \<and> children deepNumbered \<noteq> None
   \<and> appendBlocksInChunks acceptingClient 3 ''page'' [deepNumbered] None [] =
       (Ok (), [Call (ChildrenAppend ''page'' [deepNumbered] None)])"
  by code_simp


section \<open>Deletions\<close>

lemma deleteIds_append: "deleteIds (xs @ ys) = deleteIds xs @ deleteIds ys"
  by (induction xs rule: deleteIds.induct) simp_all

lemma deleteIds_none: "list_all (\<lambda>e. \<not> isDelete e) tr \<Longrightarrow> deleteIds tr = []"
  by (induction tr rule: deleteIds.induct) simp_all

lemma retryLoop_delete_requests:
  fixes respond :: "world \<Rightarrow> error + unit"
  shows "\<exists>tr n. retryLoop (invoke respond (BlocksDelete i)) maxAttempts initialDelay attempt
            lastError w = (r, w') \<longrightarrow>
          w' = w @ tr \<and> deleteIds tr = replicate n i \<and> list_all (\<lambda>e. \<not> isAppend e) tr
          \<and> (r = Ok () \<longrightarrow> 0 < n)
          \<and> ((\<forall>h e. respond h = Inl e \<longrightarrow> \<not> isRateLimit e) \<longrightarrow> n \<le> 1)"
proof (induction "nat (maxAttempts + 1 - attempt)" arbitrary: attempt lastError w)
  case 0
  then have "\<not> attempt \<le> maxAttempts" by simp
  then show ?case
    by (subst retryLoop.simps) (auto split: option.splits intro!: exI [of _ "[]"] exI [of _ 0])
next
  case (Suc k)
  then have le: "attempt \<le> maxAttempts" by simp
  let ?fn = "invoke respond (BlocksDelete i)"
  have fw: "?fn w = (answer (respond w), w @ [Call (BlocksDelete i)])"
    by (simp add: invoke_def)
  show ?case
  proof (cases "respond w")
    case (Inr u)
    then have "retryLoop ?fn maxAttempts initialDelay attempt lastError w =
        (Ok (), w @ [Call (BlocksDelete i)])"
      using le fw by (subst retryLoop.simps) (simp add: answer_def)
    then show ?thesis
      by (intro exI [of _ "[Call (BlocksDelete i)]"] exI [of _ 1]) auto
  next
    case (Inl e)
    show ?thesis
    proof (cases "attempt = maxAttempts \<or> \<not> isRateLimit e")
      case True
      then have "retryLoop ?fn maxAttempts initialDelay attempt lastError w =
          (Throw e, w @ [Call (BlocksDelete i)])"
        using le fw Inl by (subst retryLoop.simps) (auto simp: answer_def)
      then show ?thesis
        by (intro exI [of _ "[Call (BlocksDelete i)]"] exI [of _ 1]) auto
    next
      case False
      have k: "k = nat (maxAttempts + 1 - (attempt + 1))" using Suc.hyps(2) by simp
      let ?w1 = "sleep (initialDelay * 2 ^ nat (attempt - 1)) (w @ [Call (BlocksDelete i)])"
      have unf: "retryLoop ?fn maxAttempts initialDelay attempt lastError w =
          retryLoop ?fn maxAttempts initialDelay (attempt + 1) (Some e) ?w1"
        using le fw Inl False by (subst retryLoop.simps) (auto simp: answer_def)
      obtain tr n where ih: "retryLoop ?fn maxAttempts initialDelay (attempt + 1) (Some e) ?w1
            = (r, w') \<longrightarrow>
          w' = ?w1 @ tr \<and> deleteIds tr = replicate n i \<and> list_all (\<lambda>e. \<not> isAppend e) tr
          \<and> (r = Ok () \<longrightarrow> 0 < n)
          \<and> ((\<forall>h e. respond h = Inl e \<longrightarrow> \<not> isRateLimit e) \<longrightarrow> n \<le> 1)"
        using Suc.hyps(1) [OF k, of "Some e" ?w1] by blast
      have transient: "\<not> (\<forall>h e. respond h = Inl e \<longrightarrow> \<not> isRateLimit e)"
        using Inl False by blast
      show ?thesis
        apply (rule exI [of _ "Call (BlocksDelete i) # Slept (initialDelay * 2 ^ nat (attempt - 1)) # tr"])
        apply (rule exI [of _ "Suc n"])
        using ih transient unf by (auto simp: sleep_def)
    qed
  qed
qed

lemma remdups_adj_replicate_append:
  "0 < n \<Longrightarrow> i \<notin> set xs \<Longrightarrow> remdups_adj (replicate n i @ xs) = i # remdups_adj xs"
proof (induction n)
  case 0
  then show ?case by simp
next
  case (Suc n)
  show ?case
  proof (cases n)
    case 0
    have "i \<notin> set (remdups_adj xs)" using Suc.prems(2) by simp
    then show ?thesis
      using 0 by (auto simp: remdups_adj_Cons split: list.splits)
        (metis list.set_intros(1) remdups_adj_set)
  next
    case (Suc m)
    then show ?thesis using Suc.IH Suc.prems by simp
  qed
qed

lemma deleteBlocks_requests:
  assumes "distinct dels"
  shows "\<exists>tr k. snd (deleteBlocks notion m dels w) = w @ tr
      \<and> list_all (\<lambda>e. \<not> isAppend e) tr
      \<and> remdups_adj (deleteIds tr) = take k dels
      \<and> ((\<forall>i h e. blocks_delete notion i h = Inl e \<longrightarrow> \<not> isRateLimit e) \<longrightarrow>
           deleteIds tr = take k dels)"
  using assms
proof (induction dels arbitrary: w)
  case Nil
  then show ?case by (auto intro!: exI [of _ "[]"])
next
  case (Cons i rest)
  let ?first = "retryWithBackoff (invoke (blocks_delete notion i) (BlocksDelete i)) m
      INITIAL_RETRY_DELAY w"
  obtain r w1 where first: "?first = (r, w1)" by (cases ?first)
  obtain tr1 n where tr1: "w1 = w @ tr1" "deleteIds tr1 = replicate n i"
      "list_all (\<lambda>e. \<not> isAppend e) tr1" "r = Ok () \<longrightarrow> 0 < n"
      "(\<forall>h e. blocks_delete notion i h = Inl e \<longrightarrow> \<not> isRateLimit e) \<longrightarrow> n \<le> 1"
    using retryLoop_delete_requests [of "blocks_delete notion i" i m INITIAL_RETRY_DELAY 1 None w
        r w1] first
    unfolding retryWithBackoff_def by blast
  have stable: "(\<forall>i h e. blocks_delete notion i h = Inl e \<longrightarrow> \<not> isRateLimit e) \<Longrightarrow> n \<le> 1"
    using tr1(5) by blast
  have rest_distinct: "distinct rest" using Cons.prems by simp
  show ?case
  proof (cases r)
    case (Ok u)
    then have n: "0 < n" using tr1(4) by simp
    obtain tr2 k where tr2: "snd (deleteBlocks notion m rest w1) = w1 @ tr2"
        "list_all (\<lambda>e. \<not> isAppend e) tr2" "remdups_adj (deleteIds tr2) = take k rest"
        "(\<forall>i h e. blocks_delete notion i h = Inl e \<longrightarrow> \<not> isRateLimit e) \<longrightarrow>
           deleteIds tr2 = take k rest"
      using Cons.IH [OF rest_distinct, of w1] by blast
    have "set (deleteIds tr2) = set (take k rest)"
      using tr2(3) by (metis remdups_adj_set)
    then have notin: "i \<notin> set (deleteIds tr2)"
      using Cons.prems by (auto dest: in_set_takeD)
    have run: "snd (deleteBlocks notion m (i # rest) w) = w @ tr1 @ tr2"
      using first Ok tr1(1) tr2(1) by (simp add: andThen_def)
    have adj: "remdups_adj (deleteIds (tr1 @ tr2)) = take (Suc k) (i # rest)"
      using remdups_adj_replicate_append [OF n notin] tr1(2) tr2(3)
      by (simp add: deleteIds_append)
    have exact: "deleteIds (tr1 @ tr2) = take (Suc k) (i # rest)"
      if st: "\<forall>i h e. blocks_delete notion i h = Inl e \<longrightarrow> \<not> isRateLimit e"
    proof -
      have "n = 1" using n stable [OF st] by simp
      then show ?thesis using tr1(2) tr2(4) st by (simp add: deleteIds_append)
    qed
    show ?thesis
      apply (rule exI [of _ "tr1 @ tr2"])
      apply (rule exI [of _ "Suc k"])
      using run adj exact tr1(3) tr2(2) by auto
  next
    case (Throw e)
    then have run: "snd (deleteBlocks notion m (i # rest) w) = w @ tr1"
      using first tr1(1) by (simp add: andThen_def)
    have exact: "deleteIds tr1 = take (if n = 0 then 0 else 1) (i # rest)"
      if st: "\<forall>i h e. blocks_delete notion i h = Inl e \<longrightarrow> \<not> isRateLimit e"
      using stable [OF st] tr1(2) by (cases n) auto
    show ?thesis
      apply (rule exI [of _ tr1])
      apply (rule exI [of _ "if n = 0 then 0 else 1"])
      using run tr1(2,3) exact by (auto simp: remdups_adj_replicate)
  next
    case OutOfFuel
    then have run: "snd (deleteBlocks notion m (i # rest) w) = w @ tr1"
      using first tr1(1) by (simp add: andThen_def)
    have exact: "deleteIds tr1 = take (if n = 0 then 0 else 1) (i # rest)"
      if st: "\<forall>i h e. blocks_delete notion i h = Inl e \<longrightarrow> \<not> isRateLimit e"
      using stable [OF st] tr1(2) by (cases n) auto
    show ?thesis
      apply (rule exI [of _ tr1])
      apply (rule exI [of _ "if n = 0 then 0 else 1"])
      using run tr1(2,3) exact by (auto simp: remdups_adj_replicate)
  qed
qed


lemma distinct_set_add: "distinct xs \<Longrightarrow> distinct (set_add x xs)"
  by (simp add: set_add_def)

lemma appendCallback_dels:
  "appendCallback notion m pageId existingBlocks blocks after dels w = (Ok dels', w') \<Longrightarrow>
   dels' = dels \<or> (\<exists>x. dels' = set_add x dels)"
  unfolding appendCallback_def
  by (auto simp: andThen_def returns_def
      split: option.splits list.splits prod.splits result.splits if_splits)

lemma applyEdits_distinct:
  "applyEdits notion m pageId existingBlocks edits dels w = (Ok dels', w') \<Longrightarrow>
   distinct dels \<Longrightarrow> distinct dels'"
proof (induction edits arbitrary: dels w)
  case Nil
  then show ?case by simp
next
  case (Cons edit edits)
  show ?case
  proof (cases edit)
    case (AppendBlocks blocks after)
    obtain r w1 where cb: "appendCallback notion m pageId existingBlocks blocks after dels w
        = (r, w1)"
      by (cases "appendCallback notion m pageId existingBlocks blocks after dels w")
    then obtain d1 where r: "r = Ok d1"
      and rest: "applyEdits notion m pageId existingBlocks edits d1 w1 = (Ok dels', w')"
      using Cons.prems(1) AppendBlocks by (cases r) (auto simp: andThen_def)
    have "distinct d1"
      using appendCallback_dels [OF cb [unfolded r]] Cons.prems(2) distinct_set_add by auto
    then show ?thesis using Cons.IH [OF rest] by simp
  next
    case (DeleteBlock b)
    then show ?thesis
      using Cons.prems Cons.IH [of "set_add (bid b) dels" w]
        distinct_set_add [of dels "bid b"] by auto
  qed
qed

text \<open>
  C7. Whatever the remote answers and whatever the merge engine asks for, the history of
  one \<open>updateBlocks\<close> splits in two: a first part, the reading of the page and the merge
  with all its appends, that holds no delete request, and a second part that holds no
  append request. The delete requests of an id stand together in the history (they are
  the attempts of one retried call), so that the ids deleted, read with adjacent repeats
  removed, are pairwise distinct; and when the remote never answers a delete with status
  429 or 503, no id is asked to be deleted twice. When the page is read and the merge
  completes, the set of ids scheduled has no repetition and the rest of \<open>updateBlocks\<close>
  is the loop that deletes its members one by one.
\<close>

theorem deletions_deduplicated_and_after_merge:
  "(\<exists>tr1 tr2.
      snd (updateBlocks notion maxRetryAttempts engine fuel pageId newBlocks w) = w @ tr1 @ tr2
      \<and> list_all (\<lambda>e. \<not> isDelete e) tr1
      \<and> list_all (\<lambda>e. \<not> isAppend e) tr2
      \<and> distinct (remdups_adj (deleteIds (tr1 @ tr2)))
      \<and> ((\<forall>i h e. blocks_delete notion i h = Inl e \<longrightarrow> \<not> isRateLimit e) \<longrightarrow>
            distinct (deleteIds (tr1 @ tr2))))
   \<and> (getExistingBlocks notion maxRetryAttempts fuel pageId 10 0 w = (Ok existingBlocks, w0) \<longrightarrow>
        applyEdits notion maxRetryAttempts pageId existingBlocks
          (engine existingBlocks newBlocks) [] w0 = (Ok blockIdSetToDelete, w1) \<longrightarrow>
        distinct blockIdSetToDelete
        \<and> updateBlocks notion maxRetryAttempts engine fuel pageId newBlocks w =
            deleteBlocks notion maxRetryAttempts blockIdSetToDelete w1)"
proof (intro conjI impI)
  let ?P = "\<lambda>e. \<not> isDelete e"
  let ?stable = "\<forall>i h e. blocks_delete notion i h = Inl e \<longrightarrow> \<not> isRateLimit e"
  let ?goal = "\<lambda>tr1 tr2.
      snd (updateBlocks notion maxRetryAttempts engine fuel pageId newBlocks w) = w @ tr1 @ tr2
      \<and> list_all ?P tr1 \<and> list_all (\<lambda>e. \<not> isAppend e) tr2
      \<and> distinct (remdups_adj (deleteIds (tr1 @ tr2)))
      \<and> (?stable \<longrightarrow> distinct (deleteIds (tr1 @ tr2)))"
  obtain r0 w0' where g: "getExistingBlocks notion maxRetryAttempts fuel pageId 10 0 w = (r0, w0')"
    by (cases "getExistingBlocks notion maxRetryAttempts fuel pageId 10 0 w")
  have "grows ?P w (snd (getExistingBlocks notion maxRetryAttempts fuel pageId 10 0 w))"
    by (intro grows_getExistingBlocks) simp_all
  then obtain t0 where t0: "w0' = w @ t0" "list_all ?P t0"
    using g by (auto simp: grows_def)
  have early: "?goal t []" if "snd (updateBlocks notion maxRetryAttempts engine fuel pageId
      newBlocks w) = w @ t" "list_all ?P t" for t
    using that by (simp add: deleteIds_none)
  show "\<exists>tr1 tr2. ?goal tr1 tr2"
  proof (cases r0)
    case (Throw e)
    then have "?goal t0 []"
      using g t0 by (intro early) (simp_all add: updateBlocks_def andThen_def)
    then show ?thesis by blast
  next
    case OutOfFuel
    then have "?goal t0 []"
      using g t0 by (intro early) (simp_all add: updateBlocks_def andThen_def)
    then show ?thesis by blast
  next
    case (Ok existing)
    let ?edits = "applyEdits notion maxRetryAttempts pageId existing
        (engine existing newBlocks) [] w0'"
    obtain r1 w1' where a: "?edits = (r1, w1')" by (cases ?edits)
    have "grows ?P w0' (snd ?edits)"
      by (intro grows_applyEdits) simp_all
    then obtain t1 where t1: "w1' = w0' @ t1" "list_all ?P t1"
      using a by (auto simp: grows_def)
    have merged: "list_all ?P (t0 @ t1)" using t0(2) t1(2) by simp
    show ?thesis
    proof (cases r1)
      case (Throw e)
      then have "?goal (t0 @ t1) []"
        using g a Ok t0(1) t1(1) merged
        by (intro early) (simp_all add: updateBlocks_def andThen_def)
      then show ?thesis by blast
    next
      case OutOfFuel
      then have "?goal (t0 @ t1) []"
        using g a Ok t0(1) t1(1) merged
        by (intro early) (simp_all add: updateBlocks_def andThen_def)
      then show ?thesis by blast
    next
      case (Ok dels)
      have d: "distinct dels"
        using applyEdits_distinct [OF a [unfolded Ok]] by simp
      obtain tr2 k where tr2: "snd (deleteBlocks notion maxRetryAttempts dels w1') = w1' @ tr2"
          "list_all (\<lambda>e. \<not> isAppend e) tr2"
          "remdups_adj (deleteIds tr2) = take k dels"
          "?stable \<longrightarrow> deleteIds tr2 = take k dels"
        using deleteBlocks_requests [OF d, of notion maxRetryAttempts w1'] by blast
      have run: "snd (updateBlocks notion maxRetryAttempts engine fuel pageId newBlocks w)
          = w @ (t0 @ t1) @ tr2"
        using g a \<open>r0 = Ok existing\<close> Ok t0(1) t1(1) tr2(1)
        by (simp add: updateBlocks_def andThen_def)
      have ids: "deleteIds ((t0 @ t1) @ tr2) = deleteIds tr2"
        using merged by (simp add: deleteIds_append deleteIds_none del: append_assoc)
      have "?goal (t0 @ t1) tr2"
        using run merged tr2(2,3,4) d by (simp only: ids) (simp add: distinct_take)
      then show ?thesis by blast
    qed
  qed
next
  assume g: "getExistingBlocks notion maxRetryAttempts fuel pageId 10 0 w = (Ok existingBlocks, w0)"
    and a: "applyEdits notion maxRetryAttempts pageId existingBlocks
          (engine existingBlocks newBlocks) [] w0 = (Ok blockIdSetToDelete, w1)"
  show "distinct blockIdSetToDelete"
    using applyEdits_distinct [OF a] by simp
  show "updateBlocks notion maxRetryAttempts engine fuel pageId newBlocks w =
            deleteBlocks notion maxRetryAttempts blockIdSetToDelete w1"
    using g a by (simp add: updateBlocks_def andThen_def)
qed


lemma twiceScheduled_run:
  "updateBlocks acceptingClient 3 twiceScheduled 5 ''page''
     [Block None ''paragraph'' ''new'' False None] [] =
   (Ok (),
    [Call (ChildrenList ''page'' None),
     Call (ChildrenAppend ''page'' [Block None ''paragraph'' ''new'' False None] None),
     Call (BlocksDelete (Some ''a'')),
     Call (BlocksDelete (Some ''b''))])"
  by code_simp

theorem deletions_deduplicated_and_after_merge_witness:
  "\<exists>tr1 tr2.
     [Call (ChildrenList ''page'' None),
      Call (ChildrenAppend ''page'' [Block None ''paragraph'' ''new'' False None] None),
      Call (BlocksDelete (Some ''a'')),
      Call (BlocksDelete (Some ''b''))] = [] @ tr1 @ tr2
     \<and> list_all (\<lambda>e. \<not> isDelete e) tr1
     \<and> list_all (\<lambda>e. \<not> isAppend e) tr2
     \<and> distinct (deleteIds (tr1 @ tr2))"
proof -
  have stable: "\<forall>i h e. blocks_delete acceptingClient i h = Inl e \<longrightarrow> \<not> isRateLimit e"
    by (simp add: acceptingClient_def)
  obtain tr1 tr2 where
    "snd (updateBlocks acceptingClient 3 twiceScheduled 5 ''page''
       [Block None ''paragraph'' ''new'' False None] []) = [] @ tr1 @ tr2"
    "list_all (\<lambda>e. \<not> isDelete e) tr1" "list_all (\<lambda>e. \<not> isAppend e) tr2"
    "(\<forall>i h e. blocks_delete acceptingClient i h = Inl e \<longrightarrow> \<not> isRateLimit e) \<longrightarrow>
       distinct (deleteIds (tr1 @ tr2))"
    using deletions_deduplicated_and_after_merge
      [where notion = acceptingClient and maxRetryAttempts = 3 and engine = twiceScheduled
        and fuel = 5 and pageId = "''page''"
        and newBlocks = "[Block None ''paragraph'' ''new'' False None]" and w = "[]",
        THEN conjunct1]
    by blast
  then show ?thesis
    using stable unfolding twiceScheduled_run snd_conv by blast
qed


section \<open>The append callback\<close>

lemma grows_any: "grows (\<lambda>e. True) w w' \<longleftrightarrow> (\<exists>tr. w' = w @ tr)"
  by (auto simp: grows_def list_all_iff)

lemma retryWithBackoff_first_request:
  assumes "1 \<le> maxAttempts"
  shows "\<exists>tr. snd (retryWithBackoff (invoke respond r) maxAttempts initialDelay w) = w @ Call r # tr"
proof -
  have later: "\<exists>tr. snd (retryLoop (invoke respond r) maxAttempts initialDelay a le w1) = w1 @ tr"
    for a le w1
    using grows_retryLoop [of "\<lambda>e. True" "invoke respond r" w1 maxAttempts initialDelay a le]
    by (simp add: grows_any invoke_def)
  show ?thesis
  proof (cases "respond w")
    case (Inr v)
    then show ?thesis
      using assms unfolding retryWithBackoff_def
      by (subst retryLoop.simps) (simp add: invoke_def answer_def)
  next
    case (Inl e)
    show ?thesis
    proof (cases "1 = maxAttempts \<or> \<not> isRateLimit e")
      case True
      then show ?thesis
        using assms Inl unfolding retryWithBackoff_def
        by (subst retryLoop.simps) (auto simp: invoke_def answer_def)
    next
      case False
      obtain tr where "snd (retryLoop (invoke respond r) maxAttempts initialDelay (1 + 1) (Some e)
          (sleep (initialDelay * 2 ^ nat (1 - 1)) (w @ [Call r]))) =
          sleep (initialDelay * 2 ^ nat (1 - 1)) (w @ [Call r]) @ tr"
        using later by blast
      then show ?thesis
        using assms Inl False unfolding retryWithBackoff_def
        by (subst retryLoop.simps) (auto simp: invoke_def answer_def sleep_def)
    qed
  qed
qed

lemma map_detach_False [simp]: "map (detach False) bs = bs"
  by (induction bs) (simp_all add: detach_def)

lemma appendBlocksInChunks_first_request:
  assumes "1 \<le> m" "blocks \<noteq> []" "length blocks \<le> 100" "findMaxDepth (Some blocks) 0 \<le> 3"
  shows "\<exists>tr. snd (appendBlocksInChunks notion m pageId blocks afterId w) =
      w @ Call (ChildrenAppend pageId blocks (truthy afterId)) # tr"
proof -
  let ?first = "retryWithBackoff
      (invoke (children_append notion pageId blocks (truthy afterId))
         (ChildrenAppend pageId blocks (truthy afterId))) m INITIAL_RETRY_DELAY"
  let ?rest = "\<lambda>response. andThen
      (appendChildren notion m response (detachedChildren False 0 blocks))
      (\<lambda>u. appendChunks notion m pageId False (drop 100 blocks) afterId)"
  have unf: "appendBlocksInChunks notion m pageId blocks afterId w = andThen ?first ?rest w"
    using assms
    by (simp add: appendBlocksInChunks.simps appendChunks.simps [of _ _ _ _ blocks]
        NOTION_BLOCK_LIMIT_def)
  obtain t1 where t1: "snd (?first w) = w @ Call (ChildrenAppend pageId blocks (truthy afterId)) # t1"
    using retryWithBackoff_first_request [OF assms(1)] by blast
  have "grows (\<lambda>e. True) w1 (snd (?rest response w1))" for response w1
    by (intro grows_andThen grows_appendBlocksInChunks) simp_all
  then have later: "\<exists>tr. snd (?rest response w1) = w1 @ tr" for response w1
    by (simp add: grows_any)
  obtain r w1 where f: "?first w = (r, w1)" by (cases "?first w")
  show ?thesis
  proof (cases r)
    case (Ok response)
    obtain t2 where "snd (?rest response w1) = w1 @ t2" using later by blast
    then show ?thesis
      using f Ok t1 unfolding unf by (simp add: andThen_def)
  next
    case (Throw e)
    then show ?thesis using f t1 unfolding unf by (simp add: andThen_def)
  next
    case OutOfFuel
    then show ?thesis using f t1 unfolding unf by (simp add: andThen_def)
  qed
qed

lemma snd_andThen_returns:
  "snd (andThen m (\<lambda>u. returns v) w) = snd (m w)"
  by (auto simp: andThen_def returns_def split: prod.splits result.splits)

text \<open>
  C6. Let the merge engine ask for an append with no anchor while the list of existing
  blocks is not empty and its first block carries an id (a non-empty string, as every
  block the remote lists does). Then the callback is a call of \<open>appendBlocksInChunks\<close>
  anchored after that id, on the blocks asked for followed by a copy of the first
  existing block with no id, or on the blocks asked for alone when the id is already
  scheduled for deletion; and when the call returns, the id is scheduled for deletion. In
  the history: if the blocks to send fit one chunk and nest no deeper than 3 and at least
  one attempt is allowed, the next request is the append of exactly that list after that
  id.
\<close>

theorem append_without_anchor:
  "existingBlocks = firstBlock # others \<longrightarrow> bid firstBlock = Some i \<longrightarrow> i \<noteq> [] \<longrightarrow>
     appendCallback notion maxRetryAttempts pageId existingBlocks blocks None blockIdSetToDelete w =
       andThen
         (appendBlocksInChunks notion maxRetryAttempts pageId
            (if Some i \<in> set blockIdSetToDelete then blocks
             else blocks @
               [Block None (btype firstBlock) (payload firstBlock) (has_children firstBlock)
                  (children firstBlock)])
            (Some i))
         (\<lambda>u. returns (set_add (Some i) blockIdSetToDelete)) w
     \<and> (\<forall>dels' w'.
          appendCallback notion maxRetryAttempts pageId existingBlocks blocks None
            blockIdSetToDelete w = (Ok dels', w') \<longrightarrow> Some i \<in> set dels')
     \<and> (Some i \<notin> set blockIdSetToDelete \<longrightarrow> 1 \<le> maxRetryAttempts \<longrightarrow> length blocks < 100 \<longrightarrow>
          findMaxDepth (Some (blocks @
            [Block None (btype firstBlock) (payload firstBlock) (has_children firstBlock)
               (children firstBlock)])) 0 \<le> 3 \<longrightarrow>
          (\<exists>tr. snd (appendCallback notion maxRetryAttempts pageId existingBlocks blocks None
                   blockIdSetToDelete w) =
             w @ Call (ChildrenAppend pageId
                   (blocks @
                     [Block None (btype firstBlock) (payload firstBlock) (has_children firstBlock)
                        (children firstBlock)])
                   (Some i)) # tr))
     \<and> (Some i \<in> set blockIdSetToDelete \<longrightarrow> 1 \<le> maxRetryAttempts \<longrightarrow> blocks \<noteq> [] \<longrightarrow>
          length blocks \<le> 100 \<longrightarrow> findMaxDepth (Some blocks) 0 \<le> 3 \<longrightarrow>
          (\<exists>tr. snd (appendCallback notion maxRetryAttempts pageId existingBlocks blocks None
                   blockIdSetToDelete w) =
             w @ Call (ChildrenAppend pageId blocks (Some i)) # tr))"
proof (intro impI)
  assume ex: "existingBlocks = firstBlock # others" and fid: "bid firstBlock = Some i"
    and ne: "i \<noteq> []"
  let ?copy = "Block None (btype firstBlock) (payload firstBlock) (has_children firstBlock)
      (children firstBlock)"
  have tr: "truthy (Some i) = Some i" using ne by (cases i) (simp_all add: truthy_def)
  have eq: "appendCallback notion maxRetryAttempts pageId existingBlocks blocks None
        blockIdSetToDelete w =
       andThen
         (appendBlocksInChunks notion maxRetryAttempts pageId
            (if Some i \<in> set blockIdSetToDelete then blocks else blocks @ [?copy]) (Some i))
         (\<lambda>u. returns (set_add (Some i) blockIdSetToDelete)) w"
    using ex fid tr by (simp add: appendCallback_def)
  have sched: "Some i \<in> set dels'"
    if "appendCallback notion maxRetryAttempts pageId existingBlocks blocks None
          blockIdSetToDelete w = (Ok dels', w')" for dels' w'
    using that unfolding eq
    by (auto simp: andThen_def returns_def set_add_def split: prod.splits result.splits if_splits)
  have with_copy: "\<exists>tr. snd (appendCallback notion maxRetryAttempts pageId existingBlocks blocks
        None blockIdSetToDelete w) =
      w @ Call (ChildrenAppend pageId (blocks @ [?copy]) (Some i)) # tr"
    if "Some i \<notin> set blockIdSetToDelete" "1 \<le> maxRetryAttempts" "length blocks < 100"
      "findMaxDepth (Some (blocks @ [?copy])) 0 \<le> 3"
    using that appendBlocksInChunks_first_request [of maxRetryAttempts "blocks @ [?copy]" notion
        pageId "Some i" w]
    unfolding eq snd_andThen_returns by (simp add: tr)
  have without: "\<exists>tr. snd (appendCallback notion maxRetryAttempts pageId existingBlocks blocks
        None blockIdSetToDelete w) = w @ Call (ChildrenAppend pageId blocks (Some i)) # tr"
    if "Some i \<in> set blockIdSetToDelete" "1 \<le> maxRetryAttempts" "blocks \<noteq> []"
      "length blocks \<le> 100" "findMaxDepth (Some blocks) 0 \<le> 3"
    using that appendBlocksInChunks_first_request [of maxRetryAttempts blocks notion
        pageId "Some i" w]
    unfolding eq snd_andThen_returns by (simp add: tr)
  show "appendCallback notion maxRetryAttempts pageId existingBlocks blocks None
        blockIdSetToDelete w =
       andThen
         (appendBlocksInChunks notion maxRetryAttempts pageId
            (if Some i \<in> set blockIdSetToDelete then blocks else blocks @ [?copy]) (Some i))
         (\<lambda>u. returns (set_add (Some i) blockIdSetToDelete)) w
     \<and> (\<forall>dels' w'.
          appendCallback notion maxRetryAttempts pageId existingBlocks blocks None
            blockIdSetToDelete w = (Ok dels', w') \<longrightarrow> Some i \<in> set dels')
     \<and> (Some i \<notin> set blockIdSetToDelete \<longrightarrow> 1 \<le> maxRetryAttempts \<longrightarrow> length blocks < 100 \<longrightarrow>
          findMaxDepth (Some (blocks @ [?copy])) 0 \<le> 3 \<longrightarrow>
          (\<exists>tr. snd (appendCallback notion maxRetryAttempts pageId existingBlocks blocks None
                   blockIdSetToDelete w) =
             w @ Call (ChildrenAppend pageId (blocks @ [?copy]) (Some i)) # tr))
     \<and> (Some i \<in> set blockIdSetToDelete \<longrightarrow> 1 \<le> maxRetryAttempts \<longrightarrow> blocks \<noteq> [] \<longrightarrow>
          length blocks \<le> 100 \<longrightarrow> findMaxDepth (Some blocks) 0 \<le> 3 \<longrightarrow>
          (\<exists>tr. snd (appendCallback notion maxRetryAttempts pageId existingBlocks blocks None
                   blockIdSetToDelete w) =
             w @ Call (ChildrenAppend pageId blocks (Some i)) # tr))"
    using eq sched with_copy without by blast
qed


lemma anchorless_runs:
  "andThen
     (appendBlocksInChunks acceptingClient 3 ''page''
        (if Some ''first'' \<in> set [] then [newHeading]
         else [newHeading] @
           [Block None (btype firstExisting) (payload firstExisting) (has_children firstExisting)
              (children firstExisting)])
        (Some ''first''))
     (\<lambda>u. returns (set_add (Some ''first'') [])) [] =
   (Ok [Some ''first''],
    [Call (ChildrenAppend ''page''
       [newHeading, Block None ''paragraph'' ''one'' False None] (Some ''first''))])"
  "andThen
     (appendBlocksInChunks acceptingClient 3 ''page''
        (if Some ''first'' \<in> set [Some ''first''] then [newHeading]
         else [newHeading] @
           [Block None (btype firstExisting) (payload firstExisting) (has_children firstExisting)
              (children firstExisting)])
        (Some ''first''))
     (\<lambda>u. returns (set_add (Some ''first'') [Some ''first''])) [] =
   (Ok [Some ''first''], [Call (ChildrenAppend ''page'' [newHeading] (Some ''first''))])"
  by code_simp+

theorem append_without_anchor_witness:
  "appendCallback acceptingClient 3 ''page'' [firstExisting, secondExisting] [newHeading] None
     [] [] =
   (Ok [Some ''first''],
    [Call (ChildrenAppend ''page''
       [newHeading, Block None ''paragraph'' ''one'' False None] (Some ''first''))])
   \<and> appendCallback acceptingClient 3 ''page'' [firstExisting, secondExisting] [newHeading] None
     [Some ''first''] [] =
   (Ok [Some ''first''], [Call (ChildrenAppend ''page'' [newHeading] (Some ''first''))])"
proof -
  have fid: "bid firstExisting = Some ''first''" by (simp add: firstExisting_def)
  have ne: "''first'' \<noteq> []" by simp
  note eq = append_without_anchor
    [where existingBlocks = "[firstExisting, secondExisting]" and firstBlock = firstExisting
      and others = "[secondExisting]" and i = "''first''" and notion = acceptingClient
      and maxRetryAttempts = 3 and pageId = "''page''" and blocks = "[newHeading]" and w = "[]",
      THEN mp, OF refl, THEN mp, OF fid, THEN mp, OF ne, THEN conjunct1]
  show ?thesis
    by (rule conjI [OF trans [OF eq anchorless_runs(1)] trans [OF eq anchorless_runs(2)]])
qed


section \<open>The order of the archival pass\<close>

lemma isAncestorPath_iff: "isAncestorPath a key \<longleftrightarrow> (\<exists>rest. key = a @ ''/'' @ rest)"
proof
  assume "isAncestorPath a key"
  then have "key = (a @ ''/'') @ drop (Suc (length a)) key"
    unfolding isAncestorPath_def by (metis append_take_drop_id)
  then show "\<exists>rest. key = a @ ''/'' @ rest" by auto
next
  assume "\<exists>rest. key = a @ ''/'' @ rest"
  then show "isAncestorPath a key" by (auto simp: isAncestorPath_def)
qed

lemma isAncestorPath_shorter: "isAncestorPath a key \<Longrightarrow> length a < length key"
  by (auto simp: isAncestorPath_iff)

lemma isAncestorPath_trans:
  "isAncestorPath a b \<Longrightarrow> isAncestorPath b key \<Longrightarrow> isAncestorPath a key"
  by (auto simp: isAncestorPath_iff)

lemma split_slash_append:
  "split_slash (xs @ ''/'' @ ys) = split_slash xs @ split_slash ys"
proof (induction xs)
  case Nil
  then show ?case by simp
next
  case (Cons c cs)
  then show ?case
    using split_slash_nonempty [of cs] by (cases "split_slash cs") auto
qed

lemma ancestorPaths_iff: "a \<in> set (ancestorPaths key) \<longleftrightarrow> isAncestorPath a key"
proof
  assume "a \<in> set (ancestorPaths key)"
  then obtain i where i: "1 \<le> i" "i < length (split_slash key)"
    and a: "a = join_slash (take i (split_slash key))"
    by (auto simp: ancestorPaths_def Let_def)
  have "join_slash (take i (split_slash key) @ drop i (split_slash key)) =
      join_slash (take i (split_slash key)) @ ''/'' @ join_slash (drop i (split_slash key))"
    using i by (intro join_slash_append) auto
  then have "key = a @ ''/'' @ join_slash (drop i (split_slash key))"
    by (simp add: a join_split_slash)
  then show "isAncestorPath a key"
    unfolding isAncestorPath_iff by blast
next
  assume "isAncestorPath a key"
  then obtain rest where key: "key = a @ ''/'' @ rest"
    unfolding isAncestorPath_iff by blast
  have parts: "split_slash key = split_slash a @ split_slash rest"
    unfolding key by (rule split_slash_append)
  define i where "i = length (split_slash a)"
  have "1 \<le> i" "i < length (split_slash key)"
    using split_slash_nonempty [of a] split_slash_nonempty [of rest]
    by (simp_all add: i_def parts Suc_leI)
  moreover have "join_slash (take i (split_slash key)) = a"
    by (simp add: i_def parts join_split_slash)
  ultimately have "a \<in> (\<lambda>i. join_slash (take i (split_slash key))) ` {1 ..< length (split_slash key)}"
    by (intro image_eqI [where x = i]) simp_all
  then show "a \<in> set (ancestorPaths key)"
    by (simp add: ancestorPaths_def Let_def)
qed

lemma hasArchivedAncestor_iff:
  "hasArchivedAncestor archivedPages key \<longleftrightarrow>
     (\<exists>a \<in> set archivedPages. isAncestorPath a key)"
proof -
  have "1 < length (split_slash key)" if "a \<in> set (ancestorPaths key)" for a
    using that by (auto simp: ancestorPaths_def Let_def)
  then show ?thesis
    unfolding hasArchivedAncestor_def list_ex_iff
    by (auto simp: ancestorPaths_iff [symmetric])
qed

lemma topmost_iff:
  "topmost pageId processed linkMap (key, pageLink) \<longleftrightarrow>
     isCandidate pageId processed pageLink \<and>
     \<not> (\<exists>(a, al) \<in> set linkMap. isCandidate pageId processed al \<and> isAncestorPath a key)"
  by (auto simp: topmost_def list_ex_iff)

lemma archiveLoop_topmost:
  assumes "sorted (map (\<lambda>entry. length (fst entry)) (passed @ entries))"
    and "set linkMap = set (passed @ entries)"
    and "\<forall>a \<in> set archived. \<exists>al. (a, al) \<in> set linkMap \<and> isCandidate pageId processed al"
    and "\<forall>(a, al) \<in> set passed. isCandidate pageId processed al \<longrightarrow>
           a \<in> set archived \<or> (\<exists>a' \<in> set archived. isAncestorPath a' a)"
  shows "archiveLoop notion pageId processed entries archived w =
     archivePages notion (filter (topmost pageId processed linkMap) entries) archived w"
  using assms
proof (induction entries arbitrary: passed archived w)
  case Nil
  then show ?case by simp
next
  case (Cons entry entries)
  obtain key pageLink where entry: "entry = (key, pageLink)" by (cases entry)
  note sorted = Cons.prems(1) [unfolded entry]
  note whole = Cons.prems(2) [unfolded entry]
  note arch = Cons.prems(3)
  note settled = Cons.prems(4)
  have sorted': "sorted (map (\<lambda>entry. length (fst entry)) ((passed @ [(key, pageLink)]) @ entries))"
    using sorted by simp
  have whole': "set linkMap = set ((passed @ [(key, pageLink)]) @ entries)"
    using whole by simp
  show ?case
  proof (cases "isCandidate pageId processed pageLink")
    case False
    have "archiveLoop notion pageId processed entries archived w =
        archivePages notion (filter (topmost pageId processed linkMap) entries) archived w"
      using False settled by (intro Cons.IH [OF sorted' whole' arch]) auto
    then show ?thesis
      using False unfolding entry
      by (simp add: archiveLoop_skip_noncandidate topmost_iff)
  next
    case True
    have covered: "hasArchivedAncestor archived key \<longleftrightarrow>
        (\<exists>(a, al) \<in> set linkMap. isCandidate pageId processed al \<and> isAncestorPath a key)"
    proof
      assume "hasArchivedAncestor archived key"
      then obtain a where "a \<in> set archived" "isAncestorPath a key"
        unfolding hasArchivedAncestor_iff by blast
      then show "\<exists>(a, al) \<in> set linkMap. isCandidate pageId processed al \<and> isAncestorPath a key"
        using arch by fastforce
    next
      assume "\<exists>(a, al) \<in> set linkMap. isCandidate pageId processed al \<and> isAncestorPath a key"
      then obtain a al where a: "(a, al) \<in> set linkMap" "isCandidate pageId processed al"
        "isAncestorPath a key"
        by blast
      have short: "length a < length key"
        using a(3) by (rule isAncestorPath_shorter)
      have "(a, al) \<notin> set ((key, pageLink) # entries)"
      proof
        assume "(a, al) \<in> set ((key, pageLink) # entries)"
        then have "length key \<le> length a"
          using sorted by (auto simp: sorted_append)
        then show False using short by simp
      qed
      then have "(a, al) \<in> set passed"
        using a(1) whole by auto
      then have "a \<in> set archived \<or> (\<exists>a' \<in> set archived. isAncestorPath a' a)"
        using settled a(2) by blast
      then show "hasArchivedAncestor archived key"
        unfolding hasArchivedAncestor_iff
        using a(3) isAncestorPath_trans by blast
    qed
    show ?thesis
    proof (cases "hasArchivedAncestor archived key")
      case skip: True
      have "\<forall>(a, al) \<in> set (passed @ [(key, pageLink)]). isCandidate pageId processed al \<longrightarrow>
           a \<in> set archived \<or> (\<exists>a' \<in> set archived. isAncestorPath a' a)"
        using settled skip [unfolded hasArchivedAncestor_iff] by auto
      then have "archiveLoop notion pageId processed entries archived w =
          archivePages notion (filter (topmost pageId processed linkMap) entries) archived w"
        by (intro Cons.IH [OF sorted' whole' arch])
      then show ?thesis
        using True skip covered unfolding entry
        by (simp add: archiveLoop_candidate topmost_iff)
    next
      case attempt: False
      have top: "topmost pageId processed linkMap (key, pageLink)"
        using True attempt covered by (simp add: topmost_iff)
      have arch': "\<forall>a \<in> set (set_add key archived).
          \<exists>al. (a, al) \<in> set linkMap \<and> isCandidate pageId processed al"
        using arch True whole by (auto simp: set_add_def)
      have settled': "\<forall>(a, al) \<in> set (passed @ [(key, pageLink)]).
          isCandidate pageId processed al \<longrightarrow>
           a \<in> set (set_add key archived) \<or> (\<exists>a' \<in> set (set_add key archived). isAncestorPath a' a)"
        using settled by (auto simp: set_add_def)
      have rest: "archiveLoop notion pageId processed entries (set_add key archived) w' =
          archivePages notion (filter (topmost pageId processed linkMap) entries)
            (set_add key archived) w'" for w'
        by (intro Cons.IH [OF sorted' whole' arch' settled'])
      show ?thesis
        unfolding entry archiveLoop_candidate [OF True]
        using attempt top rest
        by (simp split: prod.splits result.splits)
    qed
  qed
qed

lemma archivePage_accepted:
  assumes "pages_update_archived notion i w = Inr ()"
  shows "archivePage notion i w = (Ok (), w @ [Call (PagesArchive i)])"
  unfolding archivePage_def using assms
  by (intro retryWithBackoff_first_ok) (simp_all add: MAX_RETRY_ATTEMPTS_def invoke_def answer_def)

lemma archivePage_first_request:
  "\<exists>tr. snd (archivePage notion i w) = w @ Call (PagesArchive i) # tr"
  unfolding archivePage_def
  by (intro retryWithBackoff_first_request) (simp add: MAX_RETRY_ATTEMPTS_def)

lemma archivePages_accepted:
  assumes "\<forall>i h. pages_update_archived notion i h = Inr ()"
  shows "snd (archivePages notion entries archived w) =
     w @ map (\<lambda>entry. Call (PagesArchive (link_id (snd entry)))) entries"
proof (induction entries arbitrary: archived w)
  case Nil
  then show ?case by simp
next
  case (Cons entry entries)
  obtain key pageLink where entry: "entry = (key, pageLink)" by (cases entry)
  show ?case
    unfolding entry using assms Cons.IH
    by (simp add: archivePage_accepted)
qed

lemma grows_archivePages:
  assumes "\<And>entry. entry \<in> set entries \<Longrightarrow> P (Call (PagesArchive (link_id (snd entry))))"
    and "\<And>d. P (Slept d)"
  shows "grows P w (snd (archivePages notion entries archived w))"
  using assms(1)
proof (induction entries arbitrary: archived w)
  case Nil
  then show ?case by simp
next
  case (Cons entry entries)
  obtain key pageLink where entry: "entry = (key, pageLink)" by (cases entry)
  have a: "grows P w (snd (archivePage notion (link_id pageLink) w))"
    using Cons.prems [of entry] by (intro grows_archivePage assms(2)) (simp add: entry)
  show ?case
  proof (cases "archivePage notion (link_id pageLink) w")
    case (Pair r w')
    have "grows P w' (snd (archivePages notion entries archived' w'))" for archived'
      using Cons.prems by (intro Cons.IH) simp
    then show ?thesis
      unfolding entry using a Pair grows_trans [of P w w']
      by (cases r) auto
  qed
qed
text \<open>
  C4. During the archival pass the candidates are processed in ascending order of key
  length, so that an orphaned folder's page is attempted before any of its descendants'
  pages, and every candidate whose key has an ancestor path already archived in this run
  is skipped without an archive call being made for it. The order is that of the length
  of the key, not of the depth of the path.

  For every index, every remote and every history: the list the pass loops over holds
  the entries of the index in ascending order of key length. The pass is the calls of
  \<open>archivePage\<close>, one after the other in that order and up to the first that fails, for
  the topmost candidates: the candidates with no candidate's key as an ancestor path. So
  every event the pass adds to the history is an archive request for the page of a
  topmost candidate, or the sleep before a retry; and where the remote accepts every
  archive request, the history grows by exactly one archive request for each topmost
  candidate, in ascending order of key length. An entry whose key is an ancestor path of
  another entry's key stands before it in the list. And at any point of the loop: a
  candidate whose key has an ancestor path among the keys archived so far is passed over,
  the loop going on from the same history and the same archived keys; any other
  candidate is attempted, by a call of \<open>archivePage\<close> whose first event is the archive
  request for its page, and the loop goes on, with its key archived, only if that call
  succeeds.
\<close>

theorem archival_by_key_length_skips_descendants:
  "sorted (map (\<lambda>entry. length (fst entry)) (sortedEntries linkMap))
   \<and> set (sortedEntries linkMap) = set linkMap
   \<and> length (sortedEntries linkMap) = length linkMap
   \<and> archiveOrphans notion pageId processed linkMap w =
       archivePages notion
         (filter (topmost pageId processed linkMap) (sortedEntries linkMap)) [] w
   \<and> grows (\<lambda>ev. (\<exists>d. ev = Slept d) \<or>
          ev \<in> (\<lambda>entry. Call (PagesArchive (link_id (snd entry)))) `
                 set (filter (topmost pageId processed linkMap) linkMap))
        w (snd (archiveOrphans notion pageId processed linkMap w))
   \<and> ((\<forall>i h. pages_update_archived notion i h = Inr ()) \<longrightarrow>
        snd (archiveOrphans notion pageId processed linkMap w) =
          w @ map (\<lambda>entry. Call (PagesArchive (link_id (snd entry))))
                (filter (topmost pageId processed linkMap) (sortedEntries linkMap)))
   \<and> ((folder, folderLink) \<in> set linkMap \<longrightarrow> (key, pageLink) \<in> set linkMap \<longrightarrow>
        isAncestorPath folder key \<longrightarrow>
        (\<exists>pre mid post. sortedEntries linkMap =
           pre @ (folder, folderLink) # mid @ (key, pageLink) # post))
   \<and> (isCandidate pageId processed pageLink \<longrightarrow>
        (\<exists>ancestorPath \<in> set archivedPages. isAncestorPath ancestorPath key) \<longrightarrow>
        archiveLoop notion pageId processed ((key, pageLink) # rest) archivedPages w =
          archiveLoop notion pageId processed rest archivedPages w)
   \<and> (isCandidate pageId processed pageLink \<longrightarrow>
        \<not> (\<exists>ancestorPath \<in> set archivedPages. isAncestorPath ancestorPath key) \<longrightarrow>
        archiveLoop notion pageId processed ((key, pageLink) # rest) archivedPages w =
          (case archivePage notion (link_id pageLink) w of
             (Ok u, w') \<Rightarrow>
               archiveLoop notion pageId processed rest (set_add key archivedPages) w'
           | (Throw e, w') \<Rightarrow> (Throw e, w')
           | (OutOfFuel, w') \<Rightarrow> (OutOfFuel, w'))
        \<and> (\<exists>tr. snd (archivePage notion (link_id pageLink) w) =
              w @ Call (PagesArchive (link_id pageLink)) # tr))"
proof -
  have pass: "archiveOrphans notion pageId processed linkMap w =
       archivePages notion
         (filter (topmost pageId processed linkMap) (sortedEntries linkMap)) [] w"
    unfolding archiveOrphans_def
    by (rule archiveLoop_topmost [of "[]"]) (simp_all add: sortedEntries_def)
  have events: "grows (\<lambda>ev. (\<exists>d. ev = Slept d) \<or>
          ev \<in> (\<lambda>entry. Call (PagesArchive (link_id (snd entry)))) `
                 set (filter (topmost pageId processed linkMap) linkMap))
        w (snd (archiveOrphans notion pageId processed linkMap w))"
    unfolding pass by (rule grows_archivePages) (simp_all add: sortedEntries_def)
  have accepted: "(\<forall>i h. pages_update_archived notion i h = Inr ()) \<longrightarrow>
        snd (archiveOrphans notion pageId processed linkMap w) =
          w @ map (\<lambda>entry. Call (PagesArchive (link_id (snd entry))))
                (filter (topmost pageId processed linkMap) (sortedEntries linkMap))"
    unfolding pass by (rule impI) (rule archivePages_accepted)
  have before: "(folder, folderLink) \<in> set linkMap \<longrightarrow> (key, pageLink) \<in> set linkMap \<longrightarrow>
        isAncestorPath folder key \<longrightarrow>
        (\<exists>pre mid post. sortedEntries linkMap =
           pre @ (folder, folderLink) # mid @ (key, pageLink) # post)"
  proof (intro impI)
    assume m: "(folder, folderLink) \<in> set linkMap" "(key, pageLink) \<in> set linkMap"
      and anc: "isAncestorPath folder key"
    have "length (fst (folder, folderLink)) < length (fst (key, pageLink))"
      using isAncestorPath_shorter [OF anc] by simp
    then show "\<exists>pre mid post. sortedEntries linkMap =
        pre @ (folder, folderLink) # mid @ (key, pageLink) # post"
      using m
      by (intro sorted_shorter_first [of "\<lambda>entry. length (fst entry)"])
        (simp_all add: sortedEntries_def)
  qed
  have skip: "isCandidate pageId processed pageLink \<longrightarrow>
        (\<exists>ancestorPath \<in> set archivedPages. isAncestorPath ancestorPath key) \<longrightarrow>
        archiveLoop notion pageId processed ((key, pageLink) # rest) archivedPages w =
          archiveLoop notion pageId processed rest archivedPages w"
    by (simp add: archiveLoop_candidate hasArchivedAncestor_iff)
  have attempt: "isCandidate pageId processed pageLink \<longrightarrow>
        \<not> (\<exists>ancestorPath \<in> set archivedPages. isAncestorPath ancestorPath key) \<longrightarrow>
        archiveLoop notion pageId processed ((key, pageLink) # rest) archivedPages w =
          (case archivePage notion (link_id pageLink) w of
             (Ok u, w') \<Rightarrow>
               archiveLoop notion pageId processed rest (set_add key archivedPages) w'
           | (Throw e, w') \<Rightarrow> (Throw e, w')
           | (OutOfFuel, w') \<Rightarrow> (OutOfFuel, w'))
        \<and> (\<exists>tr. snd (archivePage notion (link_id pageLink) w) =
              w @ Call (PagesArchive (link_id pageLink)) # tr)"
    using archivePage_first_request [of notion "link_id pageLink" w]
    by (simp add: archiveLoop_candidate hasArchivedAncestor_iff)
  have s1: "sorted (map (\<lambda>entry. length (fst entry)) (sortedEntries linkMap))"
    and s2: "set (sortedEntries linkMap) = set linkMap"
    and s3: "length (sortedEntries linkMap) = length linkMap"
    by (simp_all add: sortedEntries_def)
  show ?thesis
    by (intro conjI s1 s2 s3 pass events accepted before skip attempt)
qed

lemma orphanIndex_run:
  "archivePages acceptingClient
     (filter (topmost ''root'' [''p-readme''] orphanIndex) (sortedEntries orphanIndex)) [] [] =
     (Ok [''./docs'', ''./a/b/c'', ''./documentation''],
      [Call (PagesArchive ''p-docs''), Call (PagesArchive ''p-c''),
       Call (PagesArchive ''p-documentation'')])"
  by code_simp

lemma orphanIndex_attempt:
  "(case archivePage acceptingClient ''p-c'' [] of
      (Ok u, w') \<Rightarrow> archiveLoop acceptingClient ''root'' [''p-readme''] []
                      (set_add ''./a/b/c'' [''./docs'']) w'
    | (Throw e, w') \<Rightarrow> (Throw e, w')
    | (OutOfFuel, w') \<Rightarrow> (OutOfFuel, w')) =
   (Ok [''./docs'', ''./a/b/c''], [Call (PagesArchive ''p-c'')])"
  by code_simp

theorem archival_by_key_length_skips_descendants_witness:
  "archiveOrphans acceptingClient ''root'' [''p-readme''] orphanIndex [] =
     (Ok [''./docs'', ''./a/b/c'', ''./documentation''],
      [Call (PagesArchive ''p-docs''), Call (PagesArchive ''p-c''),
       Call (PagesArchive ''p-documentation'')])
   \<and> (\<exists>pre mid post. sortedEntries orphanIndex =
        pre @ (''./docs'', \<lparr>link_id = ''p-docs'', link = ''u4''\<rparr>) # mid @
          (''./docs/a/deep'', \<lparr>link_id = ''p-deep'', link = ''u6''\<rparr>) # post)
   \<and> archiveLoop acceptingClient ''root'' [''p-readme'']
        [(''./docs/a'', \<lparr>link_id = ''p-docs-a'', link = ''u1''\<rparr>)] [''./docs''] [] =
       (Ok [''./docs''], [])
   \<and> archiveLoop acceptingClient ''root'' [''p-readme'']
        [(''./a/b/c'', \<lparr>link_id = ''p-c'', link = ''u5''\<rparr>)] [''./docs''] [] =
       (Ok [''./docs'', ''./a/b/c''], [Call (PagesArchive ''p-c'')])"
proof -
  note t = archival_by_key_length_skips_descendants [where linkMap = orphanIndex
      and notion = acceptingClient and pageId = "''root''" and processed = "[''p-readme'']"
      and w = "[]" and archivedPages = "[''./docs'']" and rest = "[]"]
  note tb = archival_by_key_length_skips_descendants [where linkMap = orphanIndex
      and folder = "''./docs''" and folderLink = "\<lparr>link_id = ''p-docs'', link = ''u4''\<rparr>"
      and key = "''./docs/a/deep''" and pageLink = "\<lparr>link_id = ''p-deep'', link = ''u6''\<rparr>",
      THEN conjunct2, THEN conjunct2, THEN conjunct2, THEN conjunct2,
      THEN conjunct2, THEN conjunct2, THEN conjunct1]
  note ts = archival_by_key_length_skips_descendants [where notion = acceptingClient
      and pageId = "''root''" and processed = "[''p-readme'']"
      and w = "[]" and archivedPages = "[''./docs'']" and rest = "[]"
      and key = "''./docs/a''" and pageLink = "\<lparr>link_id = ''p-docs-a'', link = ''u1''\<rparr>",
      THEN conjunct2, THEN conjunct2, THEN conjunct2, THEN conjunct2,
      THEN conjunct2, THEN conjunct2, THEN conjunct2, THEN conjunct1]
  note ta = archival_by_key_length_skips_descendants [where notion = acceptingClient
      and pageId = "''root''" and processed = "[''p-readme'']"
      and w = "[]" and archivedPages = "[''./docs'']" and rest = "[]"
      and key = "''./a/b/c''" and pageLink = "\<lparr>link_id = ''p-c'', link = ''u5''\<rparr>",
      THEN conjunct2, THEN conjunct2, THEN conjunct2, THEN conjunct2,
      THEN conjunct2, THEN conjunct2, THEN conjunct2, THEN conjunct2]
  have pass: "archiveOrphans acceptingClient ''root'' [''p-readme''] orphanIndex [] =
     (Ok [''./docs'', ''./a/b/c'', ''./documentation''],
      [Call (PagesArchive ''p-docs''), Call (PagesArchive ''p-c''),
       Call (PagesArchive ''p-documentation'')])"
    using t [THEN conjunct2, THEN conjunct2, THEN conjunct2, THEN conjunct1]
    by (simp only: orphanIndex_run)
  have m: "(''./docs'', \<lparr>link_id = ''p-docs'', link = ''u4''\<rparr>) \<in> set orphanIndex"
    "(''./docs/a/deep'', \<lparr>link_id = ''p-deep'', link = ''u6''\<rparr>) \<in> set orphanIndex"
    "isAncestorPath ''./docs'' ''./docs/a/deep''"
    by (simp_all add: orphanIndex_def isAncestorPath_def)
  have before: "\<exists>pre mid post. sortedEntries orphanIndex =
        pre @ (''./docs'', \<lparr>link_id = ''p-docs'', link = ''u4''\<rparr>) # mid @
          (''./docs/a/deep'', \<lparr>link_id = ''p-deep'', link = ''u6''\<rparr>) # post"
    by (rule tb [THEN mp, THEN mp, THEN mp, OF m])
  have c1: "isCandidate ''root'' [''p-readme''] \<lparr>link_id = ''p-docs-a'', link = ''u1''\<rparr>"
    "\<exists>ancestorPath \<in> set [''./docs'']. isAncestorPath ancestorPath ''./docs/a''"
    by (simp_all add: isCandidate_def isRootPage_def stripDashes_def isAncestorPath_def)
  have skip: "archiveLoop acceptingClient ''root'' [''p-readme'']
        [(''./docs/a'', \<lparr>link_id = ''p-docs-a'', link = ''u1''\<rparr>)] [''./docs''] [] =
       (Ok [''./docs''], [])"
    using ts [THEN mp, THEN mp, OF c1] by simp
  have c2: "isCandidate ''root'' [''p-readme''] \<lparr>link_id = ''p-c'', link = ''u5''\<rparr>"
    "\<not> (\<exists>ancestorPath \<in> set [''./docs'']. isAncestorPath ancestorPath ''./a/b/c'')"
    by (simp_all add: isCandidate_def isRootPage_def stripDashes_def isAncestorPath_def)
  have attempt: "archiveLoop acceptingClient ''root'' [''p-readme'']
        [(''./a/b/c'', \<lparr>link_id = ''p-c'', link = ''u5''\<rparr>)] [''./docs''] [] =
       (Ok [''./docs'', ''./a/b/c''], [Call (PagesArchive ''p-c'')])"
    using ta [THEN mp, THEN mp, OF c2, THEN conjunct1]
    by (simp only: NotionPageLink.select_convs orphanIndex_attempt)
  show ?thesis
    by (intro conjI pass before skip attempt)
qed

text \<open>
  C4 as stated fails on two orphans, \<open>./documentation\<close> and \<open>./a/b/c\<close>: the shallowest
  path does not come first. The key of the deeper path is the shorter one, and the archive
  request for its page is sent before the one for the page of the shallower path.
\<close>

theorem deeper_path_archived_before_shallower:
  "pathDepth ''./documentation'' < pathDepth ''./a/b/c''
   \<and> archiveOrphans acceptingClient ''root'' []
       [(''./documentation'', \<lparr>link_id = ''p-documentation'', link = ''u2''\<rparr>),
        (''./a/b/c'', \<lparr>link_id = ''p-c'', link = ''u5''\<rparr>)] [] =
     (Ok [''./a/b/c'', ''./documentation''],
      [Call (PagesArchive ''p-c''), Call (PagesArchive ''p-documentation'')])"
  by code_simp

section \<open>Unchanged content\<close>

declare mergeFrom.simps [simp del] deepEqual.simps [simp del]

lemma andThen_OkE:
  assumes "andThen m f w = (Ok v, w')"
  obtains u w1 where "m w = (Ok u, w1)" "f u w1 = (Ok v, w')"
  using assms by (auto simp: andThen_def split: prod.splits result.splits)

lemma mergeFrom_equal:
  "list_all2 deepEqual es ds \<Longrightarrow> mergeFrom prev es ds = []"
proof (induction prev es ds rule: mergeFrom.induct)
  case (1 prev)
  then show ?case by (simp add: mergeFrom.simps)
next
  case (2 prev d ds)
  then show ?case by simp
next
  case (3 prev e es)
  then show ?case by simp
next
  case (4 prev e es d ds)
  from 4(6) have eq: "contentEqual e d"
    and kids: "list_all2 deepEqual (childrenOf e) (childrenOf d)"
    and rest: "list_all2 deepEqual es ds"
    by (simp_all add: deepEqual.simps [of e d])
  show ?case
    using eq 4(1) [OF eq kids] 4(2) [OF eq rest]
    by (simp add: mergeFrom.simps)
qed

lemma syncPages_unchanged:
  "\<forall>(pageId, f) \<in> set pages. hasChanged f = Some False \<Longrightarrow>
   syncPages notion m engine fuel syncStateManager linkUrlMap pages w = (Ok (), w)"
  by (induction pages) auto

lemma syncFiles_pages:
  "syncFiles notion m fs folderPageId childParentName (linkMap, pages, fids) w =
     (Ok (linkMap', pages', fids'), w') \<Longrightarrow>
   snd ` set pages' \<subseteq> snd ` set pages \<union> set fs"
proof (induction fs arbitrary: linkMap pages fids w)
  case Nil
  then show ?case by simp
next
  case (Cons f fs)
  obtain r w1 where c: "createOrUpdatePage notion m linkMap (fileName f) folderPageId
      childParentName doNothing w = (r, w1)"
    by (cases "createOrUpdatePage notion m linkMap (fileName f) folderPageId childParentName
      doNothing w")
  then obtain pageId lm1 where r: "r = Ok (pageId, lm1)"
    and rest: "syncFiles notion m fs folderPageId childParentName
        (lm1, pages @ [(pageId, f)], fids) w1 = (Ok (linkMap', pages', fids'), w')"
    using Cons.prems by (cases r) (auto simp: andThen_def)
  show ?case using Cons.IH [OF rest] by auto
qed

lemma subset_chain: "B \<subseteq> A \<union> S \<Longrightarrow> C \<subseteq> B \<union> R \<Longrightarrow> C \<subseteq> A \<union> (S \<union> R)"
  by blast

lemma syncFolder_pages:
  "syncFolder notion m dirName folder parentId parentName createFolder st w = (Ok st', w') \<Longrightarrow>
     snd ` set (fst (snd st')) \<subseteq> snd ` set (fst (snd st)) \<union> set (allFiles folder)"
  "syncSubfolders notion m dirName folders parentId parentName st w = (Ok st', w') \<Longrightarrow>
     snd ` set (fst (snd st')) \<subseteq> snd ` set (fst (snd st)) \<union> set (concat (map allFiles folders))"
proof (induction notion m dirName folder parentId parentName createFolder st w
    and notion m dirName folders parentId parentName st w
    arbitrary: st' w' and st' w'
    rule: syncFolder_syncSubfolders.induct)
  case (1 notion maxRetryAttempts dirName folderName folderFiles folderSubfolders parentId
      parentName createFolder linkMap pages folderPageIds w)
  let ?cpn = "if dirName = folderName then parentName else parentName @ ''/'' @ folderName"
  from 1(2) have "andThen
       (if createFolder
        then createOrUpdatePage notion maxRetryAttempts linkMap folderName parentId parentName
               doNothing
        else returns (parentId, linkMap))
       (\<lambda>(folderPageId, linkMap').
          andThen
            (syncFiles notion maxRetryAttempts folderFiles folderPageId ?cpn
               (linkMap', pages, set_add folderPageId folderPageIds))
            (syncSubfolders notion maxRetryAttempts dirName folderSubfolders folderPageId ?cpn))
       w = (Ok st', w')"
    by (simp only: syncFolder.simps)
  then obtain u w1 where
    c: "(if createFolder
        then createOrUpdatePage notion maxRetryAttempts linkMap folderName parentId parentName
               doNothing
        else returns (parentId, linkMap)) w = (Ok u, w1)"
    and after0: "(case u of (folderPageId, linkMap') \<Rightarrow>
          andThen
            (syncFiles notion maxRetryAttempts folderFiles folderPageId ?cpn
               (linkMap', pages, set_add folderPageId folderPageIds))
            (syncSubfolders notion maxRetryAttempts dirName folderSubfolders folderPageId ?cpn))
          w1 = (Ok st', w')"
    by (rule andThen_OkE)
  obtain folderPageId lm1 where u: "u = (folderPageId, lm1)" by (cases u)
  have after: "andThen
        (syncFiles notion maxRetryAttempts folderFiles folderPageId ?cpn
           (lm1, pages, set_add folderPageId folderPageIds))
        (syncSubfolders notion maxRetryAttempts dirName folderSubfolders folderPageId ?cpn) w1
        = (Ok st', w')"
    using after0 unfolding u prod.case .
  from after obtain st2 w2 where
    f: "syncFiles notion maxRetryAttempts folderFiles folderPageId ?cpn
           (lm1, pages, set_add folderPageId folderPageIds) w1 = (Ok st2, w2)"
    and subs: "syncSubfolders notion maxRetryAttempts dirName folderSubfolders folderPageId ?cpn
        st2 w2 = (Ok st', w')"
    by (rule andThen_OkE)
  obtain lm2 pages2 fids2 where st2: "st2 = (lm2, pages2, fids2)" by (cases st2)
  have p2: "snd ` set pages2 \<subseteq> snd ` set pages \<union> set folderFiles"
    using syncFiles_pages [OF f [unfolded st2]] .
  have "snd ` set (fst (snd st')) \<subseteq> snd ` set (fst (snd st2))
      \<union> set (concat (map allFiles folderSubfolders))"
    by (rule 1(1) [OF c [unfolded u] refl subs])
  then have "snd ` set (fst (snd st')) \<subseteq> snd ` set pages2
      \<union> set (concat (map allFiles folderSubfolders))"
    unfolding st2 by simp
  then have "snd ` set (fst (snd st')) \<subseteq> snd ` set pages \<union> (set folderFiles
      \<union> set (concat (map allFiles folderSubfolders)))"
    by (rule subset_chain [OF p2])
  then show ?case by simp
next
  case (2 notion maxRetryAttempts dirName parentId parentName st w)
  then show ?case by simp
next
  case (3 notion maxRetryAttempts dirName subfolder rest parentId parentName st w)
  from 3(3) have "andThen
       (syncFolder notion maxRetryAttempts dirName subfolder parentId parentName True st)
       (syncSubfolders notion maxRetryAttempts dirName rest parentId parentName) w = (Ok st', w')"
    by (simp only: syncSubfolders.simps)
  then obtain st1 w1 where
    f: "syncFolder notion maxRetryAttempts dirName subfolder parentId parentName True st w
        = (Ok st1, w1)"
    and more: "syncSubfolders notion maxRetryAttempts dirName rest parentId parentName st1 w1
        = (Ok st', w')"
    by (rule andThen_OkE)
  have a: "snd ` set (fst (snd st1)) \<subseteq> snd ` set (fst (snd st)) \<union> set (allFiles subfolder)"
    by (rule 3(1) [OF f])
  have b: "snd ` set (fst (snd st')) \<subseteq> snd ` set (fst (snd st1))
      \<union> set (concat (map allFiles rest))"
    by (rule 3(2) [OF f more])
  have "set (concat (map allFiles (subfolder # rest))) =
      set (allFiles subfolder) \<union> set (concat (map allFiles rest))"
    by simp
  then show ?case using subset_chain [OF a b] by (simp only:)
qed

text \<open>
  Where the claim of unchanged content holds. A run in which the change tracker has
  flagged every file of the tree as unchanged, with the archival of orphans off, sends no
  append request and no delete request, whatever the remote, the page index and the merge
  engine: no file reaches \<open>updateBlocks\<close>. On the side of the merge engine: for an
  existing list and a desired list of equal content at every level, the engine asks for
  nothing, neither append nor deletion; so that an \<open>updateBlocks\<close> that reads such an
  existing list returns after the reading, whose requests are neither appends nor
  deletions.
\<close>

lemma flagged_unchanged_or_read_equal:
  "((\<forall>f \<in> set (allFiles dir). hasChanged f = Some False) \<longrightarrow>
      (\<exists>tr. snd (syncToNotion notion pageId dir linkMap False syncStateManager maxRetryAttempts
               engine fuel w) = w @ tr
         \<and> list_all (\<lambda>e. \<not> isAppend e \<and> \<not> isDelete e) tr))
   \<and> (list_all2 deepEqual existingBlocks newBlocks \<longrightarrow>
        mergeBlocks existingBlocks newBlocks = [])
   \<and> (getExistingBlocks notion maxRetryAttempts fuel pageId 10 0 w = (Ok existingBlocks, w') \<longrightarrow>
        list_all2 deepEqual existingBlocks newBlocks \<longrightarrow>
        updateBlocks notion maxRetryAttempts mergeBlocks fuel pageId newBlocks w = (Ok (), w')
        \<and> (\<exists>tr. w' = w @ tr \<and> list_all (\<lambda>e. \<not> isAppend e \<and> \<not> isDelete e) tr))"
proof (intro conjI impI)
  let ?P = "\<lambda>e. \<not> isAppend e \<and> \<not> isDelete e"
  assume unchanged: "\<forall>f \<in> set (allFiles dir). hasChanged f = Some False"
  let ?folder = "syncFolder notion maxRetryAttempts (name dir) dir pageId ''.'' False
      (linkMap, [], []) w"
  obtain r w1 where f: "?folder = (r, w1)" by (cases ?folder)
  have "grows ?P w (snd ?folder)"
    by (intro grows_syncFolder) simp_all
  then have g1: "grows ?P w w1" using f by simp
  have "grows ?P w (snd (syncToNotion notion pageId dir linkMap False syncStateManager
      maxRetryAttempts engine fuel w))"
  proof (cases r)
    case (Throw e)
    then show ?thesis using f g1 by (simp add: syncToNotion_def andThen_def)
  next
    case OutOfFuel
    then show ?thesis using f g1 by (simp add: syncToNotion_def andThen_def)
  next
    case (Ok st)
    obtain linkMap' pages folderPageIds where st: "st = (linkMap', pages, folderPageIds)"
      by (cases st)
    have "snd ` set pages \<subseteq> set (allFiles dir)"
      using syncFolder_pages(1) [OF f [unfolded Ok]] st by simp
    then have "\<forall>(p, f) \<in> set pages. hasChanged f = Some False"
      using unchanged by force
    then have pages: "syncPages notion maxRetryAttempts engine fuel syncStateManager
        (map (\<lambda>(key, pageLink). (key, link pageLink)) linkMap') pages w1 = (Ok (), w1)"
      by (rule syncPages_unchanged)
    have fin: "snd (syncToNotion notion pageId dir linkMap False syncStateManager maxRetryAttempts
        engine fuel w) = (if syncStateManager then w1 @ [SavePendingChanges] else w1)"
      unfolding syncToNotion_def andThen_def f Ok st prod.case result.case pages
      by (simp add: returns_def)
    have "grows ?P w1 (if syncStateManager then w1 @ [SavePendingChanges] else w1)"
      by (simp add: grows_snoc)
    then show ?thesis unfolding fin by (rule grows_trans [OF g1])
  qed
  then show "\<exists>tr. snd (syncToNotion notion pageId dir linkMap False syncStateManager
        maxRetryAttempts engine fuel w) = w @ tr \<and> list_all ?P tr"
    by (simp add: grows_def)
next
  assume "list_all2 deepEqual existingBlocks newBlocks"
  then show "mergeBlocks existingBlocks newBlocks = []"
    by (simp add: mergeBlocks_def mergeFrom_equal)
next
  assume g: "getExistingBlocks notion maxRetryAttempts fuel pageId 10 0 w = (Ok existingBlocks, w')"
    and eq: "list_all2 deepEqual existingBlocks newBlocks"
  show "updateBlocks notion maxRetryAttempts mergeBlocks fuel pageId newBlocks w = (Ok (), w')"
    using g eq by (simp add: updateBlocks_def andThen_def mergeBlocks_def mergeFrom_equal)
  have "grows (\<lambda>e. \<not> isAppend e \<and> \<not> isDelete e) w
      (snd (getExistingBlocks notion maxRetryAttempts fuel pageId 10 0 w))"
    by (intro grows_getExistingBlocks) simp_all
  then show "\<exists>tr. w' = w @ tr \<and> list_all (\<lambda>e. \<not> isAppend e \<and> \<not> isDelete e) tr"
    using g by (simp add: grows_def)
qed

lemma mergeBlocks_examples:
  "mergeBlocks
     [Block (Some ''1'') ''p'' ''A'' False None, Block (Some ''2'') ''p'' ''B'' False None,
      Block (Some ''3'') ''p'' ''C'' False None]
     [Block None ''p'' ''A'' False None, Block None ''p'' ''B'' False None,
      Block None ''p'' ''C'' False None, Block None ''p'' ''D'' False None] =
   [AppendBlocks [Block None ''p'' ''D'' False None]
      (Some (Block (Some ''3'') ''p'' ''C'' False None))]"
  "mergeBlocks
     [Block (Some ''1'') ''p'' ''A'' False None, Block (Some ''2'') ''p'' ''B'' False None,
      Block (Some ''3'') ''p'' ''C'' False None]
     [Block None ''p'' ''A'' False None, Block None ''p'' ''C'' False None] =
   [DeleteBlock (Block (Some ''2'') ''p'' ''B'' False None)]"
  "mergeBlocks [] [Block None ''p'' ''X'' False None] =
   [AppendBlocks [Block None ''p'' ''X'' False None] None]"
  by code_simp+


text \<open>
  C1. For every folder tree and every remote state, running sync twice in succession
  with no local changes between the runs and without the archival of orphans makes zero
  append calls and zero delete calls during the second run; equivalently, when the
  desired block list is content-equal to the existing block list, the merge engine emits
  no appends and no deletions.

  The engine does ask for nothing on lists of equal content, and a file that the change
  tracker has flagged as unchanged is passed over
  (\<open>flagged_unchanged_or_read_equal\<close>). But the list \<open>updateBlocks\<close> gives to the engine
  is not the list the remote holds: \<open>getAllBlockPages\<close> reads every list page in its
  first loop and then reads the pages after the first once more, so the blocks of these
  pages stand twice in the existing list. Here the page of \<open>./notes\<close> holds the two
  blocks of the local file, which the remote lists in two pages; the file is read without
  a change tracker. The blocks the remote holds are of equal content to the desired ones,
  yet the list read holds \<open>x2\<close> twice, and the run sends a delete request for \<open>x2\<close>, a
  block of the unchanged content.
\<close>

theorem second_run_deletes_unchanged_block:
  "mergeBlocks
     [Block (Some ''x1'') ''paragraph'' ''one'' False None,
      Block (Some ''x2'') ''paragraph'' ''two'' False None] pagedContent = []
   \<and> getAllBlockPages pagedClient 3 5 ''page'' [] =
       (Ok [Block (Some ''x1'') ''paragraph'' ''one'' False None,
            Block (Some ''x2'') ''paragraph'' ''two'' False None,
            Block (Some ''x2'') ''paragraph'' ''two'' False None],
        [Call (ChildrenList ''page'' None), Call (ChildrenList ''page'' (Some ''c2'')),
         Call (ChildrenList ''page'' (Some ''c2''))])
   \<and> updateBlocks pagedClient 3 mergeBlocks 5 ''page'' pagedContent [] =
       (Ok (),
        [Call (ChildrenList ''page'' None), Call (ChildrenList ''page'' (Some ''c2'')),
         Call (ChildrenList ''page'' (Some ''c2'')), Call (BlocksDelete (Some ''x2''))])
   \<and> syncToNotion pagedClient ''root'' pagedTree
        [(''./notes'', \<lparr>link_id = ''page'', link = ''https://remote/notes''\<rparr>)]
        False False 3 mergeBlocks 5 [] =
       (Ok (),
        [Call (ChildrenList ''page'' None), Call (ChildrenList ''page'' (Some ''c2'')),
         Call (ChildrenList ''page'' (Some ''c2'')), Call (BlocksDelete (Some ''x2''))])"
  by code_simp

section \<open>Properties of the crawl\<close>

lemma fetchingIds_append: "fetchingIds (xs @ ys) = fetchingIds xs @ fetchingIds ys"
  by (induction xs rule: fetchingIds.induct) simp_all

lemma settle_at:
  assumes "i < length ts"
  obtains pre post where "ts = pre @ ts ! i # post"
    and "settle i None ts = pre @ post"
    and "\<And>t. settle i (Some t) ts = pre @ t # post"
proof
  show "ts = take i ts @ ts ! i # drop (Suc i) ts"
    using assms by (simp add: id_take_nth_drop)
  show "settle i None ts = take i ts @ drop (Suc i) ts"
    by (simp add: settle_def)
  show "settle i (Some t) ts = take i ts @ t # drop (Suc i) ts" for t
    using assms by (simp add: settle_def upd_conv_take_nth_drop)
qed

lemma settle_standing:
  assumes "settle i None ts = pre @ post" "\<And>t. settle i (Some t) ts = pre @ t # post"
  shows "settle i next ts = pre @ standing next @ post"
  using assms by (cases "next") (simp_all add: standing_def)

lemma standing_simps [simp]:
  "standing None = []" "standing (Some t) = [t]"
  "standing (spawning newParentTitle depth []) = []"
  "standing (spawning newParentTitle depth (childId # rest)) =
     [Spawning newParentTitle depth (childId # rest)]"
  by (simp_all add: standing_def spawning_def)

lemma fetchingIds_standing_spawning [simp]:
  "fetchingIds (standing (spawning newParentTitle depth ids)) = []"
  by (cases ids) simp_all

lemma map_set_keys: "fst ` set (map_set k v m) = insert k (fst ` set m)"
  by (induction m) (force split: if_splits)+

text \<open>
  The shapes of a step: the call for a page ends without registering it; or it registers
  the page and stands in the loop over its child pages; or a loop with no child left
  ends; or a loop starts its pacing sleep; or a loop starts the call for a child.
\<close>

lemma resume_cases [consumes 2, case_names failed registered finished paced dispatched]:
  assumes "i < length (pendingTasks c)"
    and "c' = resume requestDelay remote maxDepth rootPageId i (pendingTasks c ! i) c"
  obtains
    (failed) pre post pageId parentTitle depth rj where
      "pendingTasks c = pre @ Fetching pageId parentTitle depth # post"
      "c' = c\<lparr>pendingTasks := pre @ post, rejections := rj\<rparr>"
  | (registered) pre post pageId parentTitle depth pageResponse childrenResponse key pageLink
      newParentTitle where
      "pendingTasks c = pre @ Fetching pageId parentTitle depth # post"
      "remote c pageId = Inr (pageResponse, childrenResponse)"
      "c' = c\<lparr>crawlIndex := map_set key pageLink (crawlIndex c),
              registrations := registrations c @ [(key, pageId)],
              pendingTasks :=
                pre @ standing (spawning newParentTitle depth (childPageIds childrenResponse)) @ post\<rparr>"
  | (finished) pre post t newParentTitle depth where
      "pendingTasks c = pre @ t # post"
      "t = Spawning newParentTitle depth [] \<or> t = Pacing newParentTitle depth []"
      "c' = c\<lparr>pendingTasks := pre @ post\<rparr>"
  | (paced) pre post newParentTitle depth childId rest where
      "pendingTasks c = pre @ Spawning newParentTitle depth (childId # rest) # post"
      "c' = c\<lparr>pendingTasks := pre @ Pacing newParentTitle depth (childId # rest) # post\<rparr>"
  | (dispatched) pre post t newParentTitle depth childId rest where
      "pendingTasks c = pre @ t # post"
      "t = Spawning newParentTitle depth (childId # rest) \<or>
       t = Pacing newParentTitle depth (childId # rest)"
      "c' = processPageParallel maxDepth childId newParentTitle (depth + 1)
              (c\<lparr>pendingTasks := pre @ standing (spawning newParentTitle depth rest) @ post\<rparr>)"
proof -
  obtain pre post where ts: "pendingTasks c = pre @ pendingTasks c ! i # post"
    and none: "settle i None (pendingTasks c) = pre @ post"
    and some: "\<And>t. settle i (Some t) (pendingTasks c) = pre @ t # post"
    using settle_at [OF assms(1)] by blast
  note st = settle_standing [OF none some]
  show thesis
  proof (cases "pendingTasks c ! i")
    case (Fetching pageId parentTitle depth)
    note ts' = ts [unfolded Fetching]
    show thesis
    proof (cases "remote c pageId")
      case (Inl e)
      show thesis
        by (rule failed [OF ts']) (simp add: assms(2) Fetching Inl none)
    next
      case (Inr answers)
      obtain pageResponse childrenResponse where a: "answers = (pageResponse, childrenResponse)"
        by (cases answers)
      show thesis
      proof (cases "p_object pageResponse \<noteq> ''page''")
        case True
        have "c' = c\<lparr>pendingTasks := pre @ post, rejections := rejections c\<rparr>"
          using True by (simp add: assms(2) Fetching Inr a none)
        then show thesis by (rule failed [OF ts'])
      next
        case False
        show thesis
        proof (cases "getPageTitle pageResponse")
          case (Inl e)
          show thesis
            by (rule failed [OF ts']) (use False in \<open>simp add: assms(2) Fetching Inr a Inl none\<close>)
        next
          case title: (Inr pageTitle)
          show thesis
            by (rule registered [OF ts' Inr [unfolded a]])
              (use False in \<open>simp add: assms(2) Fetching Inr a title st split del: if_split\<close>)
        qed
      qed
    qed
  next
    case (Spawning newParentTitle depth ids)
    note ts' = ts [unfolded Spawning]
    show thesis
    proof (cases ids)
      case Nil
      show thesis
        by (rule finished [OF ts' [unfolded Nil] disjI1 [OF refl]])
          (simp add: assms(2) Spawning Nil none)
    next
      case (Cons childId rest)
      show thesis
      proof (cases "0 < requestDelay")
        case True
        show thesis
          by (rule paced [OF ts' [unfolded Cons]]) (simp add: assms(2) Spawning Cons True some)
      next
        case False
        show thesis
          by (rule dispatched [OF ts' [unfolded Cons] disjI1 [OF refl]])
            (simp add: assms(2) Spawning Cons False dispatch_def st)
      qed
    qed
  next
    case (Pacing newParentTitle depth ids)
    note ts' = ts [unfolded Pacing]
    show thesis
    proof (cases ids)
      case Nil
      show thesis
        by (rule finished [OF ts' [unfolded Nil] disjI2 [OF refl]])
          (simp add: assms(2) Pacing Nil none)
    next
      case (Cons childId rest)
      show thesis
        by (rule dispatched [OF ts' [unfolded Cons] disjI2 [OF refl]])
          (simp add: assms(2) Pacing Cons dispatch_def st)
    qed
  qed
qed

subsection \<open>Each page at most once\<close>

lemma onceEach_processPageParallel:
  "onceEach c \<Longrightarrow> onceEach (processPageParallel maxDepth pageId parentTitle depth c)"
  unfolding onceEach_def processPageParallel_def
  by (auto simp: set_add_def fetchingIds_append)

lemma onceEach_start: "onceEach (startCrawl maxDepth rootPageId)"
  unfolding startCrawl_def
  by (rule onceEach_processPageParallel) (simp add: onceEach_def)

lemma onceEach_resume:
  assumes "onceEach c" "i < length (pendingTasks c)"
  shows "onceEach (resume requestDelay remote maxDepth rootPageId i (pendingTasks c ! i) c)"
proof -
  define c' where "c' = resume requestDelay remote maxDepth rootPageId i (pendingTasks c ! i) c"
  from assms(2) c'_def have "onceEach c'"
  proof (cases rule: resume_cases)
  case (failed pre post pageId parentTitle depth rj)
  show ?thesis
    using assms(1) unfolding failed(2) onceEach_def
    by (auto simp: failed(1) fetchingIds_append)
next
  case (registered pre post pageId parentTitle depth pageResponse childrenResponse key pageLink
      newParentTitle)
  show ?thesis
    using assms(1) unfolding registered(3) onceEach_def
    by (auto simp: registered(1) fetchingIds_append map_set_keys)
next
  case (finished pre post t newParentTitle depth)
  show ?thesis
    using assms(1) finished(2) unfolding finished(3) onceEach_def
    by (elim disjE) (simp_all add: finished(1) fetchingIds_append)
next
  case (paced pre post newParentTitle depth childId rest)
  show ?thesis
    using assms(1) unfolding paced(2) onceEach_def
    by (auto simp: paced(1) fetchingIds_append)
next
  case (dispatched pre post t newParentTitle depth childId rest)
  have "onceEach (c\<lparr>pendingTasks := pre @ standing (spawning newParentTitle depth rest) @ post\<rparr>)"
    using assms(1) dispatched(2) unfolding onceEach_def
    by (elim disjE) (simp_all add: dispatched(1) fetchingIds_append)
  then show ?thesis
    unfolding dispatched(3) by (rule onceEach_processPageParallel)
  qed
  then show ?thesis by (simp add: c'_def)
qed

lemma onceEach_crawlSteps:
  "onceEach c \<Longrightarrow>
   onceEach (crawlSteps parallelLimit requestDelay remote maxDepth rootPageId schedule c)"
proof (induction schedule arbitrary: c)
  case Nil
  then show ?case by simp
next
  case (Cons i schedule)
  have "onceEach (case advance parallelLimit requestDelay remote maxDepth rootPageId i c of
                    Some c' \<Rightarrow> c' | None \<Rightarrow> c)"
    using Cons.prems onceEach_resume [of c i requestDelay remote maxDepth rootPageId]
    by (simp add: advance_def)
  then show ?case using Cons.IH by simp
qed

subsection \<open>Within the depth\<close>

lemma withinLevels_member:
  "depth \<le> m \<Longrightarrow> pageId \<in> set (level childPages root depth) \<Longrightarrow>
   pageId \<in> set (withinLevels childPages root m)"
  unfolding withinLevels_def by (simp del: upt_Suc) (metis atLeastLessThan_iff le_imp_less_Suc zero_le)

lemma taskWithin_spawning:
  "depth \<le> m \<Longrightarrow> set ids \<subseteq> set (level childPages root (Suc depth)) \<Longrightarrow>
   list_all (taskWithin childPages root m) (standing (spawning newParentTitle depth ids))"
  by (cases ids) simp_all

lemma withinDepth_processPageParallel:
  assumes "withinDepth childPages root m c" "pageId \<in> set (level childPages root depth)"
  shows "withinDepth childPages root m (processPageParallel (Some m) pageId parentTitle depth c)"
  using assms unfolding withinDepth_def processPageParallel_def beyond_def by auto

lemma withinDepth_start: "withinDepth childPages root m (startCrawl (Some m) root)"
  unfolding startCrawl_def
  by (rule withinDepth_processPageParallel) (simp_all add: withinDepth_def)

lemma withinDepth_resume:
  assumes children: "\<forall>c p pr lr. remote c p = Inr (pr, lr) \<longrightarrow> set (childPageIds lr) \<subseteq> set (childPages p)"
    and inv: "withinDepth childPages root m c" and i: "i < length (pendingTasks c)"
  shows "withinDepth childPages root m
    (resume requestDelay remote (Some m) rootPageId i (pendingTasks c ! i) c)"
proof -
  define c' where "c' = resume requestDelay remote (Some m) rootPageId i (pendingTasks c ! i) c"
  from i c'_def have "withinDepth childPages root m c'"
  proof (cases rule: resume_cases)
  case (failed pre post pageId parentTitle depth rj)
  show ?thesis
    using inv unfolding failed(2) withinDepth_def by (simp add: failed(1))
next
  case (registered pre post pageId parentTitle depth pageResponse childrenResponse key pageLink
      newParentTitle)
  have t: "depth \<le> m" "pageId \<in> set (level childPages root depth)"
    using inv unfolding withinDepth_def by (simp_all add: registered(1))
  have "set (childPageIds childrenResponse) \<subseteq> set (childPages pageId)"
    using children registered(2) by blast
  then have "set (childPageIds childrenResponse) \<subseteq> set (level childPages root (Suc depth))"
    using t(2) by auto
  then have "list_all (taskWithin childPages root m)
      (standing (spawning newParentTitle depth (childPageIds childrenResponse)))"
    using t(1) by (intro taskWithin_spawning)
  then show ?thesis
    using inv withinLevels_member [OF t] unfolding registered(3) withinDepth_def
    by (simp add: registered(1))
next
  case (finished pre post t newParentTitle depth)
  show ?thesis
    using inv unfolding finished(3) withinDepth_def by (simp add: finished(1))
next
  case (paced pre post newParentTitle depth childId rest)
  show ?thesis
    using inv unfolding paced(2) withinDepth_def by (simp add: paced(1))
next
  case (dispatched pre post t newParentTitle depth childId rest)
  have t: "depth \<le> m" "set (childId # rest) \<subseteq> set (level childPages root (Suc depth))"
    using inv dispatched(2) unfolding withinDepth_def
    by (elim disjE; simp add: dispatched(1) del: level.simps)+
  have "list_all (taskWithin childPages root m) (standing (spawning newParentTitle depth rest))"
    using t by (intro taskWithin_spawning) simp_all
  then have "withinDepth childPages root m
      (c\<lparr>pendingTasks := pre @ standing (spawning newParentTitle depth rest) @ post\<rparr>)"
    using inv unfolding withinDepth_def by (simp add: dispatched(1))
  moreover have "childId \<in> set (level childPages root (depth + 1))"
    using t(2) by simp
  ultimately show ?thesis
    unfolding dispatched(3) by (rule withinDepth_processPageParallel)
  qed
  then show ?thesis by (simp add: c'_def)
qed

lemma withinDepth_crawlSteps:
  assumes "\<forall>c p pr lr. remote c p = Inr (pr, lr) \<longrightarrow> set (childPageIds lr) \<subseteq> set (childPages p)"
  shows "withinDepth childPages root m c \<Longrightarrow>
    withinDepth childPages root m
      (crawlSteps parallelLimit requestDelay remote (Some m) rootPageId schedule c)"
proof (induction schedule arbitrary: c)
  case Nil
  then show ?case by simp
next
  case (Cons i schedule)
  have "withinDepth childPages root m
      (case advance parallelLimit requestDelay remote (Some m) rootPageId i c of
         Some c' \<Rightarrow> c' | None \<Rightarrow> c)"
    using Cons.prems withinDepth_resume [OF assms, of root m c i requestDelay rootPageId]
    by (simp add: advance_def)
  then show ?case using Cons.IH by simp
qed

subsection \<open>The work left goes down\<close>

lemma sum_taskWeight_standing:
  "sum_list (map taskWeight (standing (spawning newParentTitle depth rest))) \<le> 2 * length rest + 2"
  by (cases rest) simp_all

lemma knownChildren_processPageParallel:
  "knownChildren pages c \<Longrightarrow>
   knownChildren pages (processPageParallel maxDepth pageId parentTitle depth c)"
  unfolding knownChildren_def processPageParallel_def by simp

lemma crawlOrder_processPageParallel:
  assumes "pageId \<in> set pages"
  shows "processPageParallel maxDepth pageId parentTitle depth c = c \<or>
    (processPageParallel maxDepth pageId parentTitle depth c, c) \<in> crawlOrder pages"
proof (cases "pageId \<in> set (processedIds c) \<or> beyond maxDepth depth")
  case True
  then show ?thesis by (simp add: processPageParallel_def)
next
  case False
  have "set pages - insert pageId (set (processedIds c)) \<subset> set pages - set (processedIds c)"
    using assms False by blast
  then have "card (set pages - insert pageId (set (processedIds c)))
      < card (set pages - set (processedIds c))"
    by (intro psubset_card_mono) simp_all
  then show ?thesis
    using False
    by (simp add: processPageParallel_def crawlOrder_def crawlWork_def set_add_def)
qed

lemma trans_crawlOrder: "trans (crawlOrder pages)"
  unfolding crawlOrder_def
  by (intro trans_inv_image trans_lex_prod trans_less_than)

lemma wf_crawlOrder: "wf (crawlOrder pages)"
  unfolding crawlOrder_def by (intro wf_inv_image wf_lex_prod wf_less_than)

lemma resume_crawlOrder:
  assumes children: "\<forall>c p pr lr. remote c p = Inr (pr, lr) \<longrightarrow> set (childPageIds lr) \<subseteq> set pages"
    and inv: "knownChildren pages c" and i: "i < length (pendingTasks c)"
  shows "(resume requestDelay remote maxDepth rootPageId i (pendingTasks c ! i) c, c) \<in> crawlOrder pages
    \<and> knownChildren pages (resume requestDelay remote maxDepth rootPageId i (pendingTasks c ! i) c)"
proof -
  define c' where "c' = resume requestDelay remote maxDepth rootPageId i (pendingTasks c ! i) c"
  from i c'_def have "(c', c) \<in> crawlOrder pages \<and> knownChildren pages c'"
  proof (cases rule: resume_cases)
    case (failed pre post pageId parentTitle depth rj)
    show ?thesis
      using inv unfolding failed(2) crawlOrder_def crawlWork_def knownChildren_def
      by (simp add: failed(1) fetchingIds_append)
  next
    case (registered pre post pageId parentTitle depth pageResponse childrenResponse key pageLink
        newParentTitle)
    have "set (childPageIds childrenResponse) \<subseteq> set pages"
      using children registered(2) by blast
    then have "list_all (\<lambda>t. set (startable t) \<subseteq> set pages)
        (standing (spawning newParentTitle depth (childPageIds childrenResponse)))"
      by (cases "childPageIds childrenResponse") simp_all
    then show ?thesis
      using inv unfolding registered(3) crawlOrder_def crawlWork_def knownChildren_def
      by (simp add: registered(1) fetchingIds_append)
  next
    case (finished pre post t newParentTitle depth)
    show ?thesis
      using inv finished(2) unfolding finished(3) crawlOrder_def crawlWork_def knownChildren_def
      by (elim disjE) (simp_all add: finished(1) fetchingIds_append)
  next
    case (paced pre post newParentTitle depth childId rest)
    show ?thesis
      using inv unfolding paced(2) crawlOrder_def crawlWork_def knownChildren_def
      by (simp add: paced(1) fetchingIds_append)
  next
    case (dispatched pre post t newParentTitle depth childId rest)
    define c'' where
      "c'' = c\<lparr>pendingTasks := pre @ standing (spawning newParentTitle depth rest) @ post\<rparr>"
    have t: "set (startable t) \<subseteq> set pages" "startable t = childId # rest"
      "fetchingIds [t] = []" "2 * length rest + 3 \<le> taskWeight t"
      using inv dispatched(2) unfolding knownChildren_def
      by (elim disjE; simp add: dispatched(1))+
    have known: "knownChildren pages c''"
      using inv t(1,2) unfolding knownChildren_def c''_def
      by (cases rest) (simp_all add: dispatched(1))
    have "fetchingIds (pre @ t # post) = fetchingIds pre @ fetchingIds post"
      using fetchingIds_append [of pre "[t] @ post"] fetchingIds_append [of "[t]" post] t(3)
      by simp
    then have less: "(c'', c) \<in> crawlOrder pages"
      using sum_taskWeight_standing [of newParentTitle depth rest] t(4)
      unfolding c''_def crawlOrder_def crawlWork_def
      by (simp add: dispatched(1) fetchingIds_append)
    have "childId \<in> set pages" using t(1,2) by simp
    from crawlOrder_processPageParallel [OF this, of maxDepth newParentTitle "depth + 1" c'']
    have "(c', c) \<in> crawlOrder pages"
      unfolding dispatched(3) c''_def [symmetric]
      using less trans_crawlOrder [of pages] by (auto elim: transE)
    then show ?thesis
      using knownChildren_processPageParallel [OF known]
      unfolding dispatched(3) c''_def [symmetric] by simp
  qed
  then show ?thesis by (simp add: c'_def)
qed

lemma knownChildren_start: "knownChildren pages (startCrawl maxDepth rootPageId)"
  by (simp add: knownChildren_def startCrawl_def processPageParallel_def)

lemma no_endless_crawl:
  assumes children: "\<forall>c p pr lr. remote c p = Inr (pr, lr) \<longrightarrow> set (childPageIds lr) \<subseteq> set pages"
    and start: "knownChildren pages (run 0)"
    and steps: "\<forall>n. \<exists>i. advance parallelLimit requestDelay remote maxDepth rootPageId i (run n)
                   = Some (run (Suc n))"
  shows False
proof -
  have step: "(run (Suc n), run n) \<in> crawlOrder pages \<and> knownChildren pages (run (Suc n))"
    if "knownChildren pages (run n)" for n
  proof -
    obtain i where
      "advance parallelLimit requestDelay remote maxDepth rootPageId i (run n) = Some (run (Suc n))"
      using steps by blast
    then have "i < length (pendingTasks (run n))"
      and "run (Suc n) =
        resume requestDelay remote maxDepth rootPageId i (pendingTasks (run n) ! i) (run n)"
      by (simp_all add: advance_def split: if_splits)
    then show ?thesis
      using resume_crawlOrder [OF children that, of i requestDelay maxDepth rootPageId] by simp
  qed
  have known: "knownChildren pages (run n)" for n
    by (induction n) (simp_all add: start step)
  have "\<forall>n. (run (Suc n), run n) \<in> crawlOrder pages"
    using step known by blast
  then show False
    using wf_crawlOrder [of pages] unfolding wf_iff_no_infinite_down_chain by blast
qed

subsection \<open>Where the cap leaves room, the crawl comes to its end\<close>

lemma length_standing_spawning:
  "length (standing (spawning newParentTitle depth ids)) \<le> 1"
  by (cases ids) simp_all

lemma inFlight_processPageParallel:
  assumes "length (pendingTasks c) \<le> length (processedIds c)" "distinct (processedIds c)"
    "set (processedIds c) \<subseteq> set (root # pages)" "pageId \<in> set pages"
  shows "length (pendingTasks (processPageParallel maxDepth pageId parentTitle depth c))
      \<le> length (processedIds (processPageParallel maxDepth pageId parentTitle depth c))
    \<and> distinct (processedIds (processPageParallel maxDepth pageId parentTitle depth c))
    \<and> set (processedIds (processPageParallel maxDepth pageId parentTitle depth c))
        \<subseteq> set (root # pages)"
  using assms by (simp add: processPageParallel_def set_add_def)

lemma inFlight_resume:
  assumes known: "knownChildren pages c" and i: "i < length (pendingTasks c)"
    and b: "length (pendingTasks c) \<le> length (processedIds c)" "distinct (processedIds c)"
      "set (processedIds c) \<subseteq> set (root # pages)"
  shows "length (pendingTasks (resume requestDelay remote maxDepth rootPageId i (pendingTasks c ! i) c))
      \<le> length (processedIds (resume requestDelay remote maxDepth rootPageId i (pendingTasks c ! i) c))
    \<and> distinct (processedIds (resume requestDelay remote maxDepth rootPageId i (pendingTasks c ! i) c))
    \<and> set (processedIds (resume requestDelay remote maxDepth rootPageId i (pendingTasks c ! i) c))
        \<subseteq> set (root # pages)"
proof -
  define c' where "c' = resume requestDelay remote maxDepth rootPageId i (pendingTasks c ! i) c"
  from i c'_def have "length (pendingTasks c') \<le> length (processedIds c')
    \<and> distinct (processedIds c') \<and> set (processedIds c') \<subseteq> set (root # pages)"
  proof (cases rule: resume_cases)
    case (failed pre post pageId parentTitle depth rj)
    show ?thesis using b unfolding failed(2) by (simp add: failed(1))
  next
    case (registered pre post pageId parentTitle depth pageResponse childrenResponse key pageLink
        newParentTitle)
    show ?thesis
      using b length_standing_spawning [of newParentTitle depth "childPageIds childrenResponse"]
      unfolding registered(3) by (simp add: registered(1))
  next
    case (finished pre post t newParentTitle depth)
    show ?thesis using b unfolding finished(3) by (simp add: finished(1))
  next
    case (paced pre post newParentTitle depth childId rest)
    show ?thesis using b unfolding paced(2) by (simp add: paced(1))
  next
    case (dispatched pre post t newParentTitle depth childId rest)
    have "childId \<in> set pages"
      using known dispatched(2) unfolding knownChildren_def
      by (elim disjE; simp add: dispatched(1))+
    moreover have "length (pre @ standing (spawning newParentTitle depth rest) @ post)
        \<le> length (processedIds c)"
      using b(1) length_standing_spawning [of newParentTitle depth rest]
      by (simp add: dispatched(1))
    ultimately show ?thesis
      unfolding dispatched(3) using b(2,3) by (intro inFlight_processPageParallel) simp_all
  qed
  then show ?thesis by (simp add: c'_def)
qed

lemma crawl_comes_to_its_end:
  assumes children: "\<forall>c p pr lr. remote c p = Inr (pr, lr) \<longrightarrow> set (childPageIds lr) \<subseteq> set pages"
    and limit: "int (length (remdups (root # pages))) < parallelLimit"
  shows "knownChildren pages c \<Longrightarrow> length (pendingTasks c) \<le> length (processedIds c) \<Longrightarrow>
    distinct (processedIds c) \<Longrightarrow> set (processedIds c) \<subseteq> set (root # pages) \<Longrightarrow>
    \<exists>schedule. pendingTasks
      (crawlSteps parallelLimit requestDelay remote maxDepth rootPageId schedule c) = []"
proof (induction c rule: wf_induct_rule [OF wf_crawlOrder [of pages]])
  case (1 c)
  show ?case
  proof (cases "pendingTasks c")
    case Nil
    then have "pendingTasks (crawlSteps parallelLimit requestDelay remote maxDepth rootPageId [] c) = []"
      by simp
    then show ?thesis by blast
  next
    case (Cons t ts)
    define c' where "c' = resume requestDelay remote maxDepth rootPageId 0 (pendingTasks c ! 0) c"
    have i: "0 < length (pendingTasks c)" by (simp add: Cons)
    have "length (processedIds c) = card (set (processedIds c))"
      using "1.prems"(3) by (simp add: distinct_card)
    also have "\<dots> \<le> card (set (root # pages))"
      using "1.prems"(4) by (intro card_mono) simp_all
    also have "\<dots> = length (remdups (root # pages))"
      by (simp only: length_remdups_card_conv)
    finally have "int (length (pendingTasks c)) < parallelLimit"
      using limit "1.prems"(2) by linarith
    then have "\<not> waits parallelLimit c (pendingTasks c ! 0)"
      by (cases "(parallelLimit, c, pendingTasks c ! 0)" rule: waits.cases) simp_all
    then have adv: "advance parallelLimit requestDelay remote maxDepth rootPageId 0 c = Some c'"
      using i by (simp add: advance_def c'_def)
    have "(c', c) \<in> crawlOrder pages" "knownChildren pages c'"
      using resume_crawlOrder [OF children "1.prems"(1) i, of requestDelay maxDepth rootPageId]
      by (simp_all add: c'_def)
    moreover have "length (pendingTasks c') \<le> length (processedIds c')"
      "distinct (processedIds c')" "set (processedIds c') \<subseteq> set (root # pages)"
      using inFlight_resume [OF "1.prems"(1) i "1.prems"(2,3,4), of requestDelay remote maxDepth rootPageId]
      by (simp_all add: c'_def)
    ultimately obtain schedule where
      "pendingTasks (crawlSteps parallelLimit requestDelay remote maxDepth rootPageId schedule c') = []"
      using "1.IH" by blast
    then have "pendingTasks
        (crawlSteps parallelLimit requestDelay remote maxDepth rootPageId (0 # schedule) c) = []"
      by (simp add: adv)
    then show ?thesis by blast
  qed
qed

lemma inFlight_start:
  "length (pendingTasks (startCrawl maxDepth root)) \<le> length (processedIds (startCrawl maxDepth root))"
  "distinct (processedIds (startCrawl maxDepth root))"
  "set (processedIds (startCrawl maxDepth root)) \<subseteq> set (root # pages)"
  by (simp_all add: startCrawl_def processPageParallel_def set_add_def)

subsection \<open>The worked examples\<close>

lemma remoteOf_children:
  "remoteOf childPages c p = Inr (pr, lr) \<Longrightarrow> childPageIds lr = childPages p"
  by (auto simp: remoteOf_def childPagesListed_def childPageIds_def isBlockObjectResponse_def
      comp_def filter_map)

subsection \<open>The depth bound\<close>

text \<open>
  C5. For every remote page tree and every finite \<open>maxDepth\<close>, \<open>collectCurrentFiles\<close>
  registers in the returned index only pages whose depth from the root is at most
  \<open>maxDepth\<close> (the root being depth 0); a page first reached at depth greater than
  \<open>maxDepth\<close> is neither fetched nor registered.

  Here \<open>childPages\<close> is the tree: every answer of the remote lists, for a page, child
  pages among those the tree gives it. Then, whatever the cap, the pacing, the order of
  the steps and the moment the index is read: every page fetched is announced with a
  depth at most \<open>m\<close> and stands at that depth below the root; every page registered
  stands at a depth at most \<open>m\<close>; every key of the index was registered for such a page;
  and a call for a page at a depth beyond \<open>m\<close> returns at once and leaves everything as
  it is: the page is not marked as processed, not fetched and not registered.
\<close>

theorem crawl_within_maxDepth:
  assumes "\<forall>c p pr lr. remote c p = Inr (pr, lr) \<longrightarrow> set (childPageIds lr) \<subseteq> set (childPages p)"
  shows "list_all (\<lambda>(pageId, parentTitle, depth).
             depth \<le> m \<and> pageId \<in> set (level childPages root depth))
           (collecting (crawlSteps parallelLimit requestDelay remote (Some m) root schedule
              (startCrawl (Some m) root)))
    \<and> list_all (\<lambda>(key, pageId). pageId \<in> set (withinLevels childPages root m))
           (registrations (crawlSteps parallelLimit requestDelay remote (Some m) root schedule
              (startCrawl (Some m) root)))
    \<and> set (map fst (collectCurrentFiles parallelLimit requestDelay remote root (Some m) schedule))
        \<subseteq> set (map fst (registrations (crawlSteps parallelLimit requestDelay remote (Some m) root
              schedule (startCrawl (Some m) root))))
    \<and> (m < depth \<longrightarrow> processPageParallel (Some m) pageId parentTitle depth c = c)"
proof -
  have "withinDepth childPages root m
      (crawlSteps parallelLimit requestDelay remote (Some m) root schedule (startCrawl (Some m) root))"
    by (rule withinDepth_crawlSteps [OF assms withinDepth_start])
  moreover have "onceEach
      (crawlSteps parallelLimit requestDelay remote (Some m) root schedule (startCrawl (Some m) root))"
    by (rule onceEach_crawlSteps [OF onceEach_start])
  ultimately show ?thesis
    by (simp add: withinDepth_def onceEach_def collectCurrentFiles_def processPageParallel_def
        beyond_def)
qed

lemma deepTree_run:
  "crawlSteps 25 50 (remoteOf deepTree) (Some 2) ''p0'' (replicate 30 0) (startCrawl (Some 2) ''p0'')
     = \<lparr>crawlIndex =
          [(''./T-p0'', \<lparr>link_id = ''p0'', link = ''https://remote/p0''\<rparr>),
           (''./T-p1'', \<lparr>link_id = ''p1'', link = ''https://remote/p1''\<rparr>),
           (''./T-q1'', \<lparr>link_id = ''q1'', link = ''https://remote/q1''\<rparr>),
           (''./T-p1/T-p2'', \<lparr>link_id = ''p2'', link = ''https://remote/p2''\<rparr>)],
        processedIds = [''p0'', ''p1'', ''q1'', ''p2''], pendingTasks = [],
        collecting =
          [(''p0'', ''.'', 0), (''p1'', ''.'', 1), (''q1'', ''.'', 1), (''p2'', ''./T-p1'', 2)],
        registrations =
          [(''./T-p0'', ''p0''), (''./T-p1'', ''p1''), (''./T-q1'', ''q1''),
           (''./T-p1/T-p2'', ''p2'')],
        rejections = []\<rparr>"
  by code_simp

lemma deepTree_levels:
  "map (level deepTree ''p0'') [0, 1, 2, 3, 4, 5, 6] =
     [[''p0''], [''p1'', ''q1''], [''p2''], [''p3''], [''p4''], [''p5''], []]"
  by code_simp

theorem crawl_within_maxDepth_witness:
  "list_all (\<lambda>(pageId, parentTitle, depth).
       depth \<le> 2 \<and> pageId \<in> set (level deepTree ''p0'' depth))
     [(''p0'', ''.'', 0), (''p1'', ''.'', 1), (''q1'', ''.'', 1), (''p2'', ''./T-p1'', 2)]
   \<and> collecting (crawlSteps 25 50 (remoteOf deepTree) (Some 2) ''p0'' (replicate 30 0)
         (startCrawl (Some 2) ''p0''))
       = [(''p0'', ''.'', 0), (''p1'', ''.'', 1), (''q1'', ''.'', 1), (''p2'', ''./T-p1'', 2)]
   \<and> map fst (collectCurrentFiles 25 50 (remoteOf deepTree) ''p0'' (Some 2) (replicate 30 0))
       = [''./T-p0'', ''./T-p1'', ''./T-q1'', ''./T-p1/T-p2'']
   \<and> pendingTasks (crawlSteps 25 50 (remoteOf deepTree) (Some 2) ''p0'' (replicate 30 0)
         (startCrawl (Some 2) ''p0'')) = []
   \<and> processPageParallel (Some 2) ''p3'' ''./T-p1/T-p2'' 3
        (crawlSteps 25 50 (remoteOf deepTree) (Some 2) ''p0'' (replicate 30 0)
           (startCrawl (Some 2) ''p0''))
       = crawlSteps 25 50 (remoteOf deepTree) (Some 2) ''p0'' (replicate 30 0)
           (startCrawl (Some 2) ''p0'')"
proof -
  have h: "\<forall>c p pr lr. remoteOf deepTree c p = Inr (pr, lr) \<longrightarrow>
      set (childPageIds lr) \<subseteq> set (deepTree p)"
    by (simp add: remoteOf_children)
  note t = crawl_within_maxDepth [OF h, where m = 2 and root = "''p0''" and parallelLimit = 25
      and requestDelay = 50 and schedule = "replicate 30 0" and depth = 3 and pageId = "''p3''"
      and parentTitle = "''./T-p1/T-p2''"
      and c = "crawlSteps 25 50 (remoteOf deepTree) (Some 2) ''p0'' (replicate 30 0)
           (startCrawl (Some 2) ''p0'')"]
  have skip: "processPageParallel (Some 2) ''p3'' ''./T-p1/T-p2'' 3
        (crawlSteps 25 50 (remoteOf deepTree) (Some 2) ''p0'' (replicate 30 0)
           (startCrawl (Some 2) ''p0''))
       = crawlSteps 25 50 (remoteOf deepTree) (Some 2) ''p0'' (replicate 30 0)
           (startCrawl (Some 2) ''p0'')"
    using t by simp
  have within: "list_all (\<lambda>(pageId, parentTitle, depth).
       depth \<le> 2 \<and> pageId \<in> set (level deepTree ''p0'' depth))
     [(''p0'', ''.'', 0), (''p1'', ''.'', 1), (''q1'', ''.'', 1), (''p2'', ''./T-p1'', 2)]"
    using t [THEN conjunct1] unfolding deepTree_run by simp
  show ?thesis
    using skip within by (simp add: collectCurrentFiles_def deepTree_run)
qed

subsection \<open>Each page once, and no endless crawl\<close>

text \<open>
  Whatever the remote answers, the cap, the pacing and the order of the steps: no page
  id is fetched twice, none is registered twice, only pages fetched are registered, no
  two calls in flight wait for the same page, and every key of the index was registered;
  a call for a page id in \<open>processedIds\<close> returns at once and leaves everything as it is.
  When the child ids the remote lists all belong to a list \<open>pages\<close>, whatever the
  references between them, no run of the crawl goes on for ever; and where the cap
  exceeds the number of pages, so that no call ever waits for a slot, the steps of the
  calls in turn bring the crawl to the point where no call is in flight.
\<close>

lemma each_page_once_and_no_endless_crawl:
  "distinct (map fst (collecting (crawlSteps parallelLimit requestDelay remote maxDepth root
       schedule (startCrawl maxDepth root))))
   \<and> distinct (map snd (registrations (crawlSteps parallelLimit requestDelay remote maxDepth root
       schedule (startCrawl maxDepth root))))
   \<and> set (map snd (registrations (crawlSteps parallelLimit requestDelay remote maxDepth root
       schedule (startCrawl maxDepth root))))
      \<subseteq> set (map fst (collecting (crawlSteps parallelLimit requestDelay remote maxDepth root
       schedule (startCrawl maxDepth root))))
   \<and> distinct (fetchingIds (pendingTasks (crawlSteps parallelLimit requestDelay remote maxDepth
       root schedule (startCrawl maxDepth root))))
   \<and> set (map fst (collectCurrentFiles parallelLimit requestDelay remote root maxDepth schedule))
      \<subseteq> set (map fst (registrations (crawlSteps parallelLimit requestDelay remote maxDepth root
       schedule (startCrawl maxDepth root))))
   \<and> (pageId \<in> set (processedIds c) \<longrightarrow>
        processPageParallel maxDepth pageId parentTitle depth c = c)
   \<and> ((\<forall>c p pr lr. remote c p = Inr (pr, lr) \<longrightarrow> set (childPageIds lr) \<subseteq> set pages) \<longrightarrow>
        \<not> (\<exists>run. run 0 = startCrawl maxDepth root \<and>
              (\<forall>n. \<exists>i. advance parallelLimit requestDelay remote maxDepth root i (run n)
                 = Some (run (Suc n))))
        \<and> (int (length (remdups (root # pages))) < parallelLimit \<longrightarrow>
             (\<exists>ending. pendingTasks (crawlSteps parallelLimit requestDelay remote maxDepth root
                 ending (startCrawl maxDepth root)) = [])))"
proof -
  have "onceEach
      (crawlSteps parallelLimit requestDelay remote maxDepth root schedule (startCrawl maxDepth root))"
    by (rule onceEach_crawlSteps [OF onceEach_start])
  then have once: "distinct (map fst (collecting (crawlSteps parallelLimit requestDelay remote maxDepth root
       schedule (startCrawl maxDepth root))))
   \<and> distinct (map snd (registrations (crawlSteps parallelLimit requestDelay remote maxDepth root
       schedule (startCrawl maxDepth root))))
   \<and> set (map snd (registrations (crawlSteps parallelLimit requestDelay remote maxDepth root
       schedule (startCrawl maxDepth root))))
      \<subseteq> set (map fst (collecting (crawlSteps parallelLimit requestDelay remote maxDepth root
       schedule (startCrawl maxDepth root))))
   \<and> distinct (fetchingIds (pendingTasks (crawlSteps parallelLimit requestDelay remote maxDepth
       root schedule (startCrawl maxDepth root))))
   \<and> set (map fst (collectCurrentFiles parallelLimit requestDelay remote root maxDepth schedule))
      \<subseteq> set (map fst (registrations (crawlSteps parallelLimit requestDelay remote maxDepth root
       schedule (startCrawl maxDepth root))))"
    by (simp add: onceEach_def collectCurrentFiles_def)
  have skip: "pageId \<in> set (processedIds c) \<longrightarrow>
        processPageParallel maxDepth pageId parentTitle depth c = c"
    by (simp add: processPageParallel_def)
  have ends: "\<not> (\<exists>run. run 0 = startCrawl maxDepth root \<and>
              (\<forall>n. \<exists>i. advance parallelLimit requestDelay remote maxDepth root i (run n)
                 = Some (run (Suc n))))"
    if "\<forall>c p pr lr. remote c p = Inr (pr, lr) \<longrightarrow> set (childPageIds lr) \<subseteq> set pages"
    using no_endless_crawl [OF that, of _ parallelLimit requestDelay maxDepth root]
      knownChildren_start [of pages maxDepth root]
    by metis
  have completes: "\<exists>ending. pendingTasks (crawlSteps parallelLimit requestDelay remote maxDepth root
                 ending (startCrawl maxDepth root)) = []"
    if "\<forall>c p pr lr. remote c p = Inr (pr, lr) \<longrightarrow> set (childPageIds lr) \<subseteq> set pages"
      and "int (length (remdups (root # pages))) < parallelLimit"
    by (rule crawl_comes_to_its_end [OF that knownChildren_start inFlight_start])
  show ?thesis
    using once skip ends completes by blast
qed

text \<open>With room under the cap, the crawl of the cyclic pages ends, each page fetched once.\<close>

lemma cyclicPages_run:
  "crawlSteps 25 50 (remoteOf cyclicPages) None ''a'' (replicate 40 0) (startCrawl None ''a'')
     = \<lparr>crawlIndex =
          [(''./T-a'', \<lparr>link_id = ''a'', link = ''https://remote/a''\<rparr>),
           (''./T-b'', \<lparr>link_id = ''b'', link = ''https://remote/b''\<rparr>),
           (''./T-c'', \<lparr>link_id = ''c'', link = ''https://remote/c''\<rparr>),
           (''./T-b/T-d'', \<lparr>link_id = ''d'', link = ''https://remote/d''\<rparr>)],
        processedIds = [''a'', ''b'', ''c'', ''d''], pendingTasks = [],
        collecting =
          [(''a'', ''.'', 0), (''b'', ''.'', 1), (''c'', ''.'', 1), (''d'', ''./T-b'', 2)],
        registrations =
          [(''./T-a'', ''a''), (''./T-b'', ''b''), (''./T-c'', ''c''), (''./T-b/T-d'', ''d'')],
        rejections = []\<rparr>"
  by code_simp

text \<open>
  C10. Within one \<open>collectCurrentFiles\<close> run, each remote page id is processed at most
  once: a page id already in the visited set is skipped on re-encounter, so a page
  reachable from two crawled parents is fetched and registered in the index only once,
  and the crawl terminates even if the remote parent--child references form a cycle.

  The first half holds, and no run goes on for ever (\<open>each_page_once_and_no_endless_crawl\<close>).
  But the crawl need not come to its end: a call in the loop over its child pages waits
  while \<open>pendingTasks.size >= parallelLimit\<close>, and it is itself a member of
  \<open>pendingTasks\<close>. With \<open>parallelLimit = 1\<close> and the pages of \<open>cyclicPages\<close>, whatever the
  steps tried, the call for the root never ends, so that \<open>collectCurrentFiles\<close> never
  returns: the root is the only page ever fetched; once it has been registered its call
  stands before its first child, and no call can take a step any more.
\<close>

theorem crawl_never_ends_at_cap_one:
  "pendingTasks (crawlSteps 1 50 (remoteOf cyclicPages) None ''a'' schedule (startCrawl None ''a''))
     \<noteq> []
   \<and> collecting (crawlSteps 1 50 (remoteOf cyclicPages) None ''a'' schedule (startCrawl None ''a''))
       = [(''a'', ''.'', 0)]
   \<and> crawlSteps 1 50 (remoteOf cyclicPages) None ''a'' (0 # schedule) (startCrawl None ''a'')
       = \<lparr>crawlIndex = [(''./T-a'', \<lparr>link_id = ''a'', link = ''https://remote/a''\<rparr>)],
          processedIds = [''a''],
          pendingTasks = [Spawning ''.'' 0 [''b'', ''c'']],
          collecting = [(''a'', ''.'', 0)],
          registrations = [(''./T-a'', ''a'')], rejections = []\<rparr>
   \<and> advance 1 50 (remoteOf cyclicPages) None ''a'' i
        \<lparr>crawlIndex = [(''./T-a'', \<lparr>link_id = ''a'', link = ''https://remote/a''\<rparr>)],
          processedIds = [''a''],
          pendingTasks = [Spawning ''.'' 0 [''b'', ''c'']],
          collecting = [(''a'', ''.'', 0)],
          registrations = [(''./T-a'', ''a'')], rejections = []\<rparr> = None"
proof -
  define s0 where "s0 = startCrawl None ''a''"
  define s1 where "s1 =
    \<lparr>crawlIndex = [(''./T-a'', \<lparr>link_id = ''a'', link = ''https://remote/a''\<rparr>)],
     processedIds = [''a''],
     pendingTasks = [Spawning ''.'' 0 [''b'', ''c'']],
     collecting = [(''a'', ''.'', 0)],
     registrations = [(''./T-a'', ''a'')], rejections = []\<rparr>"
  have start: "s0 = \<lparr>crawlIndex = [], processedIds = [''a''],
      pendingTasks = [Fetching ''a'' ''.'' 0], collecting = [(''a'', ''.'', 0)],
      registrations = [], rejections = []\<rparr>"
    unfolding s0_def by code_simp
  have first: "crawlSteps 1 50 (remoteOf cyclicPages) None ''a'' [0] (startCrawl None ''a'') = s1"
    unfolding s1_def by code_simp
  then have step0: "advance 1 50 (remoteOf cyclicPages) None ''a'' 0 s0 = Some s1"
    by (simp add: s0_def advance_def start [unfolded s0_def])
  have other: "advance 1 50 (remoteOf cyclicPages) None ''a'' (Suc i) s0 = None" for i
    by (simp add: advance_def start)
  have none: "advance 1 50 (remoteOf cyclicPages) None ''a'' i s1 = None" for i
    by (cases i) (simp_all add: advance_def s1_def)
  have stay: "crawlSteps 1 50 (remoteOf cyclicPages) None ''a'' schedule s1 = s1" for schedule
    by (induction schedule) (simp_all add: none)
  have either: "crawlSteps 1 50 (remoteOf cyclicPages) None ''a'' schedule s0 = s0
      \<or> crawlSteps 1 50 (remoteOf cyclicPages) None ''a'' schedule s0 = s1" for schedule
  proof (induction schedule)
    case Nil
    then show ?case by simp
  next
    case (Cons i schedule)
    then show ?case
      by (cases i) (simp_all add: step0 other stay)
  qed
  have pending: "pendingTasks (crawlSteps 1 50 (remoteOf cyclicPages) None ''a'' schedule
      (startCrawl None ''a'')) \<noteq> []"
    using either [of schedule] unfolding s0_def [symmetric]
    by (auto simp: start s1_def)
  have fetched: "collecting (crawlSteps 1 50 (remoteOf cyclicPages) None ''a'' schedule
      (startCrawl None ''a'')) = [(''a'', ''.'', 0)]"
    using either [of schedule] unfolding s0_def [symmetric]
    by (auto simp: start s1_def)
  have stuck: "crawlSteps 1 50 (remoteOf cyclicPages) None ''a'' (0 # schedule)
      (startCrawl None ''a'') = s1"
    unfolding s0_def [symmetric] by (simp add: step0 stay)
  show ?thesis
    using pending fetched stuck none [of i] unfolding s1_def by (intro conjI)
qed

end
